theory Spec2Isabelle
  imports Main "HOL-Library.Word" "HOL-Library.Sublist"
begin

section \<open>Bytes, Python slices and the library calls of extract.py\<close>

text \<open>
  A Python \<open>bytes\<close> object is a list of 8-bit words. Offsets are Python integers
  (\<open>int\<close>): several of them are computed by subtraction and may be negative. A decoded
  \<open>str\<close> is a list of Unicode code points.
\<close>

type_synonym byte = "8 word"
type_synonym pystr = "nat list"

definition bytes_of :: "string \<Rightarrow> byte list" where
  "bytes_of s = map of_char s"

definition str_of :: "string \<Rightarrow> pystr" where
  "str_of s = map of_char s"

text \<open>
  \<open>b[start:stop]\<close> and \<open>b[start:]\<close>: a negative bound counts from the end, and every
  bound is clamped to the buffer, so a slice never raises.
\<close>

definition clamp_index :: "nat \<Rightarrow> int \<Rightarrow> nat" where
  "clamp_index n i = (if i < 0 then nat (max 0 (int n + i)) else min n (nat i))"

definition py_slice :: "'a list \<Rightarrow> int \<Rightarrow> int \<Rightarrow> 'a list" where
  "py_slice xs start stop =
     (let lo = clamp_index (length xs) start; hi = clamp_index (length xs) stop
      in take (hi - lo) (drop lo xs))"

definition py_slice_from :: "'a list \<Rightarrow> int \<Rightarrow> 'a list" where
  "py_slice_from xs start = drop (clamp_index (length xs) start) xs"

text \<open>
  \<open>b.find(sub, start)\<close> is the lowest index at or after \<open>start\<close> where \<open>sub\<close> occurs,
  \<open>b.rfind(sub)\<close> the highest one; both are \<open>-1\<close> when there is none.
\<close>

fun find_aux :: "'a list \<Rightarrow> 'a list \<Rightarrow> nat \<Rightarrow> int" where
  "find_aux sub [] k = (if sub = [] then int k else - 1)"
| "find_aux sub (x # xs) k =
     (if prefix sub (x # xs) then int k else find_aux sub xs (Suc k))"

definition py_find :: "'a list \<Rightarrow> 'a list \<Rightarrow> int \<Rightarrow> int" where
  "py_find xs sub start =
     (let lo = (if start < 0 then max 0 (int (length xs) + start) else start) in
      if int (length xs) < lo then - 1 else find_aux sub (drop (nat lo) xs) (nat lo))"

fun rfind_aux :: "'a list \<Rightarrow> 'a list \<Rightarrow> nat \<Rightarrow> int \<Rightarrow> int" where
  "rfind_aux sub [] k found = (if sub = [] then int k else found)"
| "rfind_aux sub (x # xs) k found =
     rfind_aux sub xs (Suc k) (if prefix sub (x # xs) then int k else found)"

definition py_rfind :: "'a list \<Rightarrow> 'a list \<Rightarrow> int" where
  "py_rfind xs sub = rfind_aux sub xs 0 (- 1)"

text \<open>
  \<open>struct.unpack_from("<I", buf, offset)\<close>: four bytes, little-endian. A negative offset
  counts from the end of the buffer; the call raises \<open>struct.error\<close> when the four bytes
  do not lie inside the buffer.
\<close>

datatype error = TrailerMismatch | UnknownRecordWidth | StructError

definition u32_le :: "byte list \<Rightarrow> nat" where
  "u32_le bs = foldr (\<lambda>b acc. unat b + 256 * acc) bs 0"

definition unpack_from_u32 :: "byte list \<Rightarrow> int \<Rightarrow> error + nat" where
  "unpack_from_u32 buf offset =
     (let n = int (length buf) in
      if offset < 0 \<and> (0 < offset + 4 \<or> offset + n < 0) then Inl StructError
      else
        let off = (if offset < 0 then offset + n else offset) in
        if n - off < 4 then Inl StructError
        else Inr (u32_le (take 4 (drop (nat off) buf))))"

section \<open>parse_footer\<close>

definition BUN_TRAILER :: "byte list" where
  "BUN_TRAILER = [10, 45, 45, 45, 45, 32, 66, 117, 110, 33, 32, 45, 45, 45, 45, 10]"

record footer =
  offset_byte_count :: nat
  entrypoint_id :: nat
  modules_ptr_offset :: nat
  modules_ptr_length :: nat

text \<open>
  The assertion on the trailer comes first; the four reads follow, at \<open>-48\<close>, \<open>-44\<close>,
  \<open>-40\<close> and \<open>-36\<close> from the end of the section.
\<close>

definition u32_from_end :: "byte list \<Rightarrow> int \<Rightarrow> error + nat" where
  "u32_from_end section off_from_end =
     unpack_from_u32 section (int (length section) + off_from_end)"

definition parse_footer :: "byte list \<Rightarrow> error + footer" where
  "parse_footer section =
     (let section_size = int (length section);
          trailer = py_slice_from section (section_size - int (length BUN_TRAILER))
      in if trailer \<noteq> BUN_TRAILER then Inl TrailerMismatch
         else
           case u32_from_end section (- 48) of Inl e \<Rightarrow> Inl e | Inr a \<Rightarrow>
          (case u32_from_end section (- 44) of Inl e \<Rightarrow> Inl e | Inr b \<Rightarrow>
          (case u32_from_end section (- 40) of Inl e \<Rightarrow> Inl e | Inr c \<Rightarrow>
          (case u32_from_end section (- 36) of Inl e \<Rightarrow> Inl e | Inr d \<Rightarrow>
             Inr \<lparr>offset_byte_count = a, entrypoint_id = b,
                  modules_ptr_offset = c, modules_ptr_length = d\<rparr>))))"

section \<open>Text classification and the wrapper prefix\<close>

text \<open>
  \<open>sum(1 for b in contents[:1000] if 32 <= b < 127 or b in (9, 10, 13)) > 900\<close>
\<close>

definition printable :: "byte \<Rightarrow> bool" where
  "printable b = ((32 \<le> b \<and> b < 127) \<or> b \<in> set [9, 10, 13])"

definition is_text_of :: "byte list \<Rightarrow> bool" where
  "is_text_of contents =
     (900 < sum_list (map (\<lambda>b. (1::nat)) (filter printable (py_slice contents 0 1000))))"

definition wrapper_marker :: "byte list" where
  "wrapper_marker =
     bytes_of ''(function(exports, require, module, __filename, __dirname) {''"

text \<open>The \<open>while\<close> loop of strip_bytecode_prefix skips the leading padding bytes.\<close>

definition padding :: "byte \<Rightarrow> bool" where
  "padding b = (b < 32 \<and> b \<notin> set [9, 10, 13])"

fun skip_padding :: "byte list \<Rightarrow> nat \<Rightarrow> nat" where
  "skip_padding [] i = i"
| "skip_padding (b # js) i = (if padding b then skip_padding js (Suc i) else i)"

definition strip_bytecode_prefix :: "byte list \<Rightarrow> byte list" where
  "strip_bytecode_prefix contents =
     (let pos = py_find contents wrapper_marker 0 in
      if pos < 0 then contents
      else
        let js = py_slice_from contents (pos + int (length wrapper_marker));
            i = skip_padding js 0
        in py_slice_from js (int i))"

section \<open>Path recovery\<close>

text \<open>
  \<open>bytes.decode("utf-8", errors="replace")\<close>: every well-formed sequence gives its code
  point, every maximal ill-formed prefix gives one U+FFFD. \<open>utf8_step\<close> returns the
  code point and the number of bytes it stands for.
\<close>

definition REPLACEMENT :: nat where
  "REPLACEMENT = 65533"

definition is_continuation :: "byte \<Rightarrow> bool" where
  "is_continuation b = (128 \<le> b \<and> b < 192)"

definition utf8_step :: "byte list \<Rightarrow> nat \<times> nat" where
  "utf8_step s =
     (let n = length s; ch = s ! 0 in
      if ch < 128 then (unat ch, 1)
      else if ch < 194 then (REPLACEMENT, 1)
      else if ch < 224 then
        (if n < 2 then (REPLACEMENT, n)
         else if \<not> is_continuation (s ! 1) then (REPLACEMENT, 1)
         else (unat ch mod 32 * 64 + unat (s ! 1) mod 64, 2))
      else if ch < 240 then
        (if n < 2 then (REPLACEMENT, n)
         else if \<not> is_continuation (s ! 1)
                 \<or> (if s ! 1 < 160 then ch = 224 else ch = 237)
           then (REPLACEMENT, 1)
         else if n < 3 then (REPLACEMENT, n)
         else if \<not> is_continuation (s ! 2) then (REPLACEMENT, 2)
         else ((unat ch mod 16 * 64 + unat (s ! 1) mod 64) * 64 + unat (s ! 2) mod 64, 3))
      else if ch < 245 then
        (if n < 2 then (REPLACEMENT, n)
         else if \<not> is_continuation (s ! 1)
                 \<or> (if s ! 1 < 144 then ch = 240 else ch = 244)
           then (REPLACEMENT, 1)
         else if n < 3 then (REPLACEMENT, n)
         else if \<not> is_continuation (s ! 2) then (REPLACEMENT, 2)
         else if n < 4 then (REPLACEMENT, n)
         else if \<not> is_continuation (s ! 3) then (REPLACEMENT, 3)
         else (((unat ch mod 8 * 64 + unat (s ! 1) mod 64) * 64 + unat (s ! 2) mod 64) * 64
                 + unat (s ! 3) mod 64, 4))
      else (REPLACEMENT, 1))"

function utf8_decode :: "byte list \<Rightarrow> pystr" where
  "utf8_decode [] = []"
| "utf8_decode (b # bs) =
     (case utf8_step (b # bs) of (c, k) \<Rightarrow> c # utf8_decode (drop k (b # bs)))"
  by pat_completeness auto
termination
  by (relation "measure length") (auto simp: utf8_step_def Let_def split: if_splits)

text \<open>\<open>f"{i}"\<close> for a non-negative \<open>i\<close>: its decimal digits.\<close>

function str_of_nat :: "nat \<Rightarrow> pystr" where
  "str_of_nat n = (if n < 10 then [48 + n] else str_of_nat (n div 10) @ [48 + n mod 10])"
  by pat_completeness auto
termination
  by (relation "measure id") auto

declare str_of_nat.simps [simp del]

text \<open>\<open>s.strip(chars)\<close> removes the characters of \<open>chars\<close> from both ends.\<close>

definition py_strip :: "pystr \<Rightarrow> pystr \<Rightarrow> pystr" where
  "py_strip s chars =
     rev (dropWhile (\<lambda>c. c \<in> set chars) (rev (dropWhile (\<lambda>c. c \<in> set chars) s)))"

definition BUNFS_ROOT :: "byte list" where
  "BUNFS_ROOT = bytes_of ''/$bunfs/root''"

text \<open>
  The path as decoded, before the prefix is stripped: the first \<open>if\<close>/\<open>else\<close> cascade of
  the loop body. \<open>.split(b"\\x00")[0]\<close> is the part before the first null byte.
\<close>

definition raw_path :: "byte list \<Rightarrow> nat \<Rightarrow> nat \<Rightarrow> pystr" where
  "raw_path section path_off path_len =
     (let search_start = max 0 (int path_off - 50);
          chunk = py_slice section search_start (int path_off + int path_len + 10);
          bunfs_idx = py_rfind chunk BUNFS_ROOT
      in if 0 \<le> bunfs_idx then
           let actual_start = search_start + bunfs_idx;
               null_end = py_find section [0] actual_start
           in if 0 < null_end then utf8_decode (py_slice section actual_start null_end)
              else utf8_decode (takeWhile (\<lambda>b. b \<noteq> 0)
                     (py_slice section actual_start (actual_start + int path_len + 20)))
         else utf8_decode (py_slice section (int path_off) (int path_off + int path_len)))"

text \<open>The loop over the two prefixes, with its \<open>break\<close> at the first that matches.\<close>

fun strip_first_prefix :: "pystr list \<Rightarrow> pystr \<Rightarrow> pystr" where
  "strip_first_prefix [] p = p"
| "strip_first_prefix (pre # pres) p =
     (if prefix pre p then py_slice_from p (int (length pre)) else strip_first_prefix pres p)"

definition stripped_path :: "byte list \<Rightarrow> nat \<Rightarrow> nat \<Rightarrow> pystr" where
  "stripped_path section path_off path_len =
     py_strip
       (strip_first_prefix [str_of ''/$bunfs/root/'', str_of ''/$bunfs/root'']
          (raw_path section path_off path_len))
       [47, 10, 9, 0]"

definition recover_path :: "byte list \<Rightarrow> nat \<Rightarrow> nat \<Rightarrow> nat \<Rightarrow> pystr" where
  "recover_path section i path_off path_len =
     (let p = stripped_path section path_off path_len in
      if p = [] then str_of ''module_'' @ str_of_nat i @ str_of ''.js'' else p)"

section \<open>extract_modules\<close>

record module =
  index :: nat
  path :: pystr
  contents :: "byte list"
  is_text :: bool

text \<open>The candidates are tried in the order of the source; the first divisor wins.\<close>

definition chunk_sizes :: "nat list" where
  "chunk_sizes = [52, 28, 32]"

definition infer_chunk_size :: "nat \<Rightarrow> nat option" where
  "infer_chunk_size ptr_length = find (\<lambda>cs. ptr_length mod cs = 0) chunk_sizes"

text \<open>The four reads of one record; the first that fails ends the whole call.\<close>

definition read_record :: "byte list \<Rightarrow> int \<Rightarrow> error + (nat \<times> nat \<times> nat \<times> nat)" where
  "read_record section meta_off =
     (case unpack_from_u32 section meta_off of Inl e \<Rightarrow> Inl e | Inr path_off \<Rightarrow>
     (case unpack_from_u32 section (meta_off + 4) of Inl e \<Rightarrow> Inl e | Inr path_len \<Rightarrow>
     (case unpack_from_u32 section (meta_off + 8) of Inl e \<Rightarrow> Inl e | Inr contents_off \<Rightarrow>
     (case unpack_from_u32 section (meta_off + 12) of Inl e \<Rightarrow> Inl e | Inr contents_len \<Rightarrow>
        Inr (path_off, path_len, contents_off, contents_len)))))"

definition make_module :: "byte list \<Rightarrow> nat \<Rightarrow> nat \<times> nat \<times> nat \<times> nat \<Rightarrow> module" where
  "make_module section i r =
     (case r of (path_off, path_len, contents_off, contents_len) \<Rightarrow>
        let cs = py_slice section (int contents_off) (int contents_off + int contents_len)
        in \<lparr>index = i, path = recover_path section i path_off path_len,
            contents = cs, is_text = is_text_of cs\<rparr>)"

fun modules_loop ::
  "byte list \<Rightarrow> int \<Rightarrow> nat \<Rightarrow> nat list \<Rightarrow> module list \<Rightarrow> error + module list" where
  "modules_loop section metadata_start chunk_size [] modules = Inr modules"
| "modules_loop section metadata_start chunk_size (i # rest) modules =
     (case read_record section (metadata_start + int i * int chunk_size) of
        Inl e \<Rightarrow> Inl e
      | Inr r \<Rightarrow>
          modules_loop section metadata_start chunk_size rest
            (modules @ [make_module section i r]))"

definition metadata_start_of :: "byte list \<Rightarrow> footer \<Rightarrow> int" where
  "metadata_start_of section ft =
     (let section_size = int (length section);
          modules_start = section_size - (int (offset_byte_count ft) + 48);
          modules_end = modules_start + int (modules_ptr_offset ft)
      in modules_end)"

definition extract_modules :: "byte list \<Rightarrow> footer \<Rightarrow> error + module list" where
  "extract_modules section ft =
     (case infer_chunk_size (modules_ptr_length ft) of
        None \<Rightarrow> Inl UnknownRecordWidth
      | Some chunk_size \<Rightarrow>
          let num_modules = modules_ptr_length ft div chunk_size
          in modules_loop section (metadata_start_of section ft) chunk_size
               [0..<num_modules] [])"

section \<open>The specification's predicates\<close>

text \<open>
  The specification speaks of "printable ASCII (32..126) or tab, newline, carriage-return"
  and of "bytes below value 32 other than tab/newline/carriage-return". These two
  predicates follow its words; the code's tests are \<open>printable\<close> and \<open>padding\<close>.
\<close>

definition allowed_byte :: "byte \<Rightarrow> bool" where
  "allowed_byte b = (unat b \<in> {32..126} \<union> {9, 10, 13})"

definition control_byte :: "byte \<Rightarrow> bool" where
  "control_byte b = (unat b < 32 \<and> unat b \<notin> {9, 10, 13})"

text \<open>
  Four bytes read little-endian at position \<open>p\<close> of the region, written out.
\<close>

definition le32_at :: "byte list \<Rightarrow> nat \<Rightarrow> nat" where
  "le32_at r p = unat (r ! p) + 256 * unat (r ! (p + 1)) + 65536 * unat (r ! (p + 2))
                 + 16777216 * unat (r ! (p + 3))"

text \<open>
  The window in which the root marker is searched: from 50 bytes before \<open>path_off\<close>
  (from 0 when there are fewer) to \<open>path_off + path_len + 10\<close>.
\<close>

definition search_window :: "byte list \<Rightarrow> nat \<Rightarrow> nat \<Rightarrow> byte list" where
  "search_window section po pl = take (po + pl + 10 - (po - 50)) (drop (po - 50) section)"

text \<open>
  Where \<open>struct.unpack_from\<close> can read four bytes: at an offset from the start, or at a
  negative offset counted from the end. The offsets that extract.py computes stay inside
  a C \<open>ssize_t\<close>, as \<open>struct.unpack_from\<close> needs (it raises \<open>OverflowError\<close>
  beyond it, which \<open>unpack_from_u32\<close> does not model), when the footer fields are
  unsigned 32-bit values and the section has fewer than \<open>2 ^ 62\<close> bytes.
\<close>

definition field_in_range :: "nat \<Rightarrow> int \<Rightarrow> bool" where
  "field_in_range n off = ((0 \<le> off \<and> off + 4 \<le> int n) \<or> (- int n \<le> off \<and> off \<le> - 4))"

definition fits_ssize :: "byte list \<Rightarrow> footer \<Rightarrow> bool" where
  "fits_ssize section ft =
     (offset_byte_count ft < 2 ^ 32 \<and> modules_ptr_offset ft < 2 ^ 32 \<and>
      modules_ptr_length ft < 2 ^ 32 \<and> length section < 2 ^ 62)"

text \<open>
  What the specification says of a recovered path: the root prefix is removed once
  (with its separator when it has one), the characters of \<open>strip_chars\<close> are removed from
  both ends, and an empty result is replaced by a placeholder that carries the index of
  the record in decimal.
\<close>

definition strip_chars :: "nat set" where
  "strip_chars = {47, 10, 9, 0}"

definition after_prefix :: "pystr \<Rightarrow> pystr" where
  "after_prefix p =
     (if prefix (str_of ''/$bunfs/root/'') p then drop 13 p
      else if prefix (str_of ''/$bunfs/root'') p then drop 12 p
      else p)"

definition placeholder :: "nat \<Rightarrow> pystr" where
  "placeholder i = str_of ''module_'' @ str_of_nat i @ str_of ''.js''"

definition decimal_value :: "pystr \<Rightarrow> nat" where
  "decimal_value ds = foldl (\<lambda>a d. 10 * a + (d - 48)) 0 ds"

text \<open>
  UTF-8 as the specification means it: the Unicode scalar values are the code points
  below \<open>0x110000\<close> outside the surrogate range \<open>0xD800..0xDFFF\<close>, and \<open>utf8_encode\<close> is the
  encoding of one of them in one to four bytes.
\<close>

definition scalar :: "nat \<Rightarrow> bool" where
  "scalar c = (c < 1114112 \<and> \<not> (55296 \<le> c \<and> c < 57344))"

definition utf8_encode :: "nat \<Rightarrow> byte list" where
  "utf8_encode c =
     (if c < 128 then [of_nat c]
      else if c < 2048 then [of_nat (192 + c div 64), of_nat (128 + c mod 64)]
      else if c < 65536 then
        [of_nat (224 + c div 4096), of_nat (128 + c div 64 mod 64), of_nat (128 + c mod 64)]
      else [of_nat (240 + c div 262144), of_nat (128 + c div 4096 mod 64),
            of_nat (128 + c div 64 mod 64), of_nat (128 + c mod 64)])"

section \<open>Slices and searches\<close>

lemma py_slice_prefix: "py_slice xs 0 (int n) = take n xs"
  by (cases "n \<le> length xs") (simp_all add: py_slice_def clamp_index_def min_def)

lemma py_slice_from_nat: "py_slice_from xs (int n) = drop n xs"
  by (cases "n \<le> length xs") (simp_all add: py_slice_from_def clamp_index_def min_def)

lemma find_aux_prefix: "prefix sub xs \<Longrightarrow> find_aux sub xs k = int k"
  by (cases xs) simp_all

lemma find_aux_absent: "\<not> sublist sub xs \<Longrightarrow> find_aux sub xs k = - 1"
proof (induction xs arbitrary: k)
  case Nil
  then show ?case by auto
next
  case (Cons x xs)
  then show ?case by (simp add: sublist_Cons_right)
qed

section \<open>Text classification\<close>

lemma byte_eq_small:
  "(b = (9::byte)) = (unat b = 9)" "(b = (10::byte)) = (unat b = 10)"
  "(b = (13::byte)) = (unat b = 13)"
  by (simp_all add: word_unat_eq_iff)

lemma printable_allowed: "printable b = allowed_byte b"
  by (auto simp: printable_def allowed_byte_def word_le_nat_alt word_less_nat_alt
      byte_eq_small)

lemma is_text_of_count: "is_text_of c = (900 < length (filter allowed_byte (take 1000 c)))"
proof -
  have "py_slice c 0 1000 = take 1000 c"
    using py_slice_prefix [of c 1000] by simp
  moreover have "filter printable = filter allowed_byte"
    by (rule ext) (simp add: printable_allowed cong: filter_cong)
  ultimately show ?thesis
    by (simp add: is_text_of_def sum_list_triv)
qed

text \<open>
  C7. A module is text exactly when more than 900 of its first 1000 bytes (of all its
  bytes when it is shorter) are printable ASCII (32..126), tab, newline or carriage
  return. A buffer of 1000 bytes with 901 such bytes is text, one with 900 is binary.
\<close>

theorem is_text_threshold:
  "(is_text_of c \<longleftrightarrow> 900 < length (filter allowed_byte (take 1000 c))) \<and>
   (length c = 1000 \<and> length (filter allowed_byte c) = 901 \<longrightarrow> is_text_of c) \<and>
   (length c = 1000 \<and> length (filter allowed_byte c) = 900 \<longrightarrow> \<not> is_text_of c)"
  by (simp add: is_text_of_count)

theorem is_text_threshold_witness:
  "is_text_of (replicate 901 65 @ replicate 99 0) \<and>
   \<not> is_text_of (replicate 900 65 @ replicate 100 0)"
  using is_text_threshold [of "replicate 901 65 @ replicate 99 0"]
        is_text_threshold [of "replicate 900 65 @ replicate 100 0"]
  by (simp add: allowed_byte_def)

text \<open>
  C9. A module of fewer than 901 bytes is never text, whatever its bytes are: the
  threshold is a count of bytes, not a fraction of the sample.
\<close>

theorem short_module_is_binary: "length c < 901 \<Longrightarrow> \<not> is_text_of c"
proof -
  assume h: "length c < 901"
  have "length (filter allowed_byte (take 1000 c)) \<le> length c"
    by (rule order_trans [OF length_filter_le]) simp
  with h have "\<not> 900 < length (filter allowed_byte (take 1000 c))"
    by linarith
  then show ?thesis
    by (simp add: is_text_of_count del: take_all_iff)
qed

theorem short_module_is_binary_witness:
  "length (replicate 500 (65::byte)) < 901 \<and> allowed_byte 65 \<and>
   \<not> is_text_of (replicate 500 65)"
  using short_module_is_binary [of "replicate 500 65"]
  by (simp add: allowed_byte_def)

section \<open>The wrapper prefix\<close>

lemma padding_control: "padding b = control_byte b"
  by (auto simp: padding_def control_byte_def word_less_nat_alt byte_eq_small)

lemma skip_padding_takeWhile: "skip_padding js i = i + length (takeWhile padding js)"
  by (induction js arbitrary: i) simp_all

lemma drop_skip_padding: "drop (skip_padding js 0) js = dropWhile padding js"
  by (simp add: skip_padding_takeWhile dropWhile_eq_drop)

lemma dropWhile_padding: "dropWhile padding = dropWhile control_byte"
  by (rule ext) (simp add: padding_control cong: dropWhile_cong)

text \<open>
  C8. Stripping the wrapper prefix followed by \<open>b\<close> gives \<open>b\<close> without its leading control
  bytes (bytes below 32 other than tab, newline and carriage return), and a buffer in
  which the wrapper prefix does not occur is returned as it is.
\<close>

theorem strip_bytecode_prefix_roundtrip:
  "strip_bytecode_prefix (wrapper_marker @ b) = dropWhile control_byte b \<and>
   (\<not> sublist wrapper_marker c \<longrightarrow> strip_bytecode_prefix c = c)"
proof
  have "py_find (wrapper_marker @ b) wrapper_marker 0 = 0"
    by (simp add: py_find_def find_aux_prefix)
  then show "strip_bytecode_prefix (wrapper_marker @ b) = dropWhile control_byte b"
    using py_slice_from_nat [of "wrapper_marker @ b" "length wrapper_marker"]
    by (simp add: strip_bytecode_prefix_def Let_def py_slice_from_nat drop_skip_padding
        dropWhile_padding)
next
  show "\<not> sublist wrapper_marker c \<longrightarrow> strip_bytecode_prefix c = c"
    by (simp add: strip_bytecode_prefix_def py_find_def find_aux_absent)
qed

theorem strip_bytecode_prefix_roundtrip_witness:
  "strip_bytecode_prefix (wrapper_marker @ [0, 1, 97, 0]) = [97, 0] \<and>
   \<not> sublist wrapper_marker (bytes_of ''abc'') \<and>
   strip_bytecode_prefix (bytes_of ''abc'') = bytes_of ''abc''"
  using strip_bytecode_prefix_roundtrip [of "[0, 1, 97, 0]" "bytes_of ''abc''"]
  by (simp add: control_byte_def wrapper_marker_def bytes_of_def sublist_Cons_right)

section \<open>Reading records\<close>

lemma unpack_from_u32_error: "unpack_from_u32 buf off = Inl e \<Longrightarrow> e = StructError"
  by (auto simp: unpack_from_u32_def Let_def split: if_splits)

lemma take4_drop:
  assumes "p + 4 \<le> length xs"
  shows "take 4 (drop p xs) = [xs ! p, xs ! (p + 1), xs ! (p + 2), xs ! (p + 3)]"
proof (rule nth_equalityI)
  show "length (take 4 (drop p xs)) = length [xs ! p, xs ! (p + 1), xs ! (p + 2), xs ! (p + 3)]"
    using assms by simp
next
  fix i
  assume "i < length (take 4 (drop p xs))"
  then have "i < 4" by simp
  then consider "i = 0" | "i = 1" | "i = 2" | "i = 3" by linarith
  then show "take 4 (drop p xs) ! i = [xs ! p, xs ! (p + 1), xs ! (p + 2), xs ! (p + 3)] ! i"
    using assms by cases simp_all
qed

lemma unpack_from_u32_in_bounds:
  "0 \<le> off \<Longrightarrow> off + 4 \<le> int (length buf) \<Longrightarrow>
   unpack_from_u32 buf off = Inr (le32_at buf (nat off))"
proof -
  assume a: "0 \<le> off" and b: "off + 4 \<le> int (length buf)"
  then have "nat off + 4 \<le> length buf" by linarith
  then have "take 4 (drop (nat off) buf) =
      [buf ! nat off, buf ! (nat off + 1), buf ! (nat off + 2), buf ! (nat off + 3)]"
    by (rule take4_drop)
  with a b show ?thesis
    by (simp add: unpack_from_u32_def Let_def u32_le_def le32_at_def)
qed

lemma read_record_error: "read_record s off = Inl e \<Longrightarrow> e = StructError"
  by (auto simp: read_record_def split: sum.splits dest: unpack_from_u32_error)

lemma read_record_in_bounds:
  assumes "0 \<le> off" and "off + 16 \<le> int (length s)"
  shows "read_record s off =
     Inr (le32_at s (nat off), le32_at s (nat off + 4), le32_at s (nat off + 8),
          le32_at s (nat off + 12))"
proof -
  have "unpack_from_u32 s off = Inr (le32_at s (nat off))"
    using assms by (intro unpack_from_u32_in_bounds) auto
  moreover have "unpack_from_u32 s (off + 4) = Inr (le32_at s (nat off + 4))"
    using assms unpack_from_u32_in_bounds [of "off + 4" s] by (simp add: nat_add_distrib)
  moreover have "unpack_from_u32 s (off + 8) = Inr (le32_at s (nat off + 8))"
    using assms unpack_from_u32_in_bounds [of "off + 8" s] by (simp add: nat_add_distrib)
  moreover have "unpack_from_u32 s (off + 12) = Inr (le32_at s (nat off + 12))"
    using assms unpack_from_u32_in_bounds [of "off + 12" s] by (simp add: nat_add_distrib)
  ultimately show ?thesis by (simp add: read_record_def)
qed

lemma modules_loop_eq:
  "modules_loop s m cs is acc =
     (if \<forall>i\<in>set is. read_record s (m + int i * int cs) \<noteq> Inl StructError
      then Inr (acc @ map (\<lambda>i. make_module s i (projr (read_record s (m + int i * int cs)))) is)
      else Inl StructError)"
proof (induction "is" arbitrary: acc)
  case Nil
  then show ?case by simp
next
  case (Cons i rest)
  show ?case
  proof (cases "read_record s (m + int i * int cs)")
    case (Inl e)
    then have "e = StructError" by (rule read_record_error)
    with Inl show ?thesis by simp
  next
    case (Inr r)
    then show ?thesis by (simp add: Cons.IH)
  qed
qed

section \<open>Record width\<close>

lemma find_first:
  "find P xs = Some w \<longleftrightarrow> (\<exists>k<length xs. xs ! k = w \<and> P w \<and> (\<forall>j<k. \<not> P (xs ! j)))"
  by (auto simp: find_Some_iff)

lemma infer_chunk_size_None:
  "infer_chunk_size n = None \<longleftrightarrow> (\<forall>c\<in>set chunk_sizes. n mod c \<noteq> 0)"
  by (simp add: infer_chunk_size_def find_None_iff Ball_def)

lemma infer_chunk_size_zero: "infer_chunk_size 0 = Some 52"
  by (simp add: infer_chunk_size_def chunk_sizes_def)

text \<open>
  C10. When \<open>modules_ptr_length\<close> is 0 the first candidate width, 52, is selected
  (0 is divisible by every candidate) and decoding returns the empty list of modules,
  whatever the section is; no error is raised.
\<close>

theorem empty_index_decodes:
  "modules_ptr_length ft = 0 \<Longrightarrow>
   infer_chunk_size (modules_ptr_length ft) = Some 52 \<and> extract_modules section ft = Inr []"
  by (simp add: extract_modules_def infer_chunk_size_zero)

theorem empty_index_decodes_witness:
  "extract_modules [1, 2, 3]
     \<lparr>offset_byte_count = 7, entrypoint_id = 0, modules_ptr_offset = 5,
      modules_ptr_length = 0\<rparr> = Inr []"
  using empty_index_decodes [of "\<lparr>offset_byte_count = 7, entrypoint_id = 0,
     modules_ptr_offset = 5, modules_ptr_length = 0\<rparr>" "[1, 2, 3]"]
  by simp

text \<open>
  C3. The candidate widths are tested in the fixed order 52, 28, 32 and the first that
  divides \<open>modules_ptr_length\<close> exactly is selected; decoding fails with
  \<open>UnknownRecordWidth\<close> if and only if no candidate divides it.
\<close>

theorem infer_chunk_size_first_divisor:
  "(infer_chunk_size n = Some w \<longleftrightarrow>
      (\<exists>k<length chunk_sizes. chunk_sizes ! k = w \<and> n mod w = 0 \<and>
         (\<forall>j<k. n mod (chunk_sizes ! j) \<noteq> 0))) \<and>
   (extract_modules section ft = Inl UnknownRecordWidth \<longleftrightarrow>
      (\<forall>c\<in>set chunk_sizes. modules_ptr_length ft mod c \<noteq> 0))"
proof
  show "infer_chunk_size n = Some w \<longleftrightarrow>
      (\<exists>k<length chunk_sizes. chunk_sizes ! k = w \<and> n mod w = 0 \<and>
         (\<forall>j<k. n mod (chunk_sizes ! j) \<noteq> 0))"
    using find_first [of "\<lambda>cs. n mod cs = 0" chunk_sizes w]
    by (simp only: infer_chunk_size_def)
next
  show "extract_modules section ft = Inl UnknownRecordWidth \<longleftrightarrow>
      (\<forall>c\<in>set chunk_sizes. modules_ptr_length ft mod c \<noteq> 0)"
  proof (cases "infer_chunk_size (modules_ptr_length ft)")
    case None
    then show ?thesis
      using infer_chunk_size_None [of "modules_ptr_length ft"]
      by (simp add: extract_modules_def)
  next
    case (Some cs)
    then have "\<not> (\<forall>c\<in>set chunk_sizes. modules_ptr_length ft mod c \<noteq> 0)"
      using infer_chunk_size_None [of "modules_ptr_length ft"] by simp
    moreover have "extract_modules section ft \<noteq> Inl UnknownRecordWidth"
      using Some by (simp add: extract_modules_def Let_def modules_loop_eq)
    ultimately show ?thesis by simp
  qed
qed

theorem infer_chunk_size_first_divisor_witness:
  "infer_chunk_size 56 = Some 28 \<and>
   extract_modules [] \<lparr>offset_byte_count = 0, entrypoint_id = 0, modules_ptr_offset = 0,
      modules_ptr_length = 30\<rparr> = Inl UnknownRecordWidth"
proof -
  have "\<exists>k<length chunk_sizes. chunk_sizes ! k = 28 \<and> (56::nat) mod 28 = 0 \<and>
          (\<forall>j<k. (56::nat) mod (chunk_sizes ! j) \<noteq> 0)"
    by (rule exI [of _ 1]) (simp add: chunk_sizes_def)
  moreover have "\<forall>c\<in>set chunk_sizes. (30::nat) mod c \<noteq> 0"
    by (simp add: chunk_sizes_def)
  ultimately show ?thesis
    using infer_chunk_size_first_divisor [of 56 28 "[]" "\<lparr>offset_byte_count = 0,
      entrypoint_id = 0, modules_ptr_offset = 0, modules_ptr_length = 30\<rparr>"]
    by simp
qed

section \<open>Decoding the module index\<close>

lemma py_slice_window: "py_slice s (int co) (int co + int cl) = take cl (drop co s)"
proof (cases "co \<le> length s")
  case True
  show ?thesis
  proof (cases "co + cl \<le> length s")
    case True
    with \<open>co \<le> length s\<close> show ?thesis
      by (simp add: py_slice_def clamp_index_def min_def nat_add_distrib)
  next
    case False
    with \<open>co \<le> length s\<close> show ?thesis
      by (simp add: py_slice_def clamp_index_def min_def nat_add_distrib)
  qed
next
  case False
  then show ?thesis
    by (simp add: py_slice_def clamp_index_def min_def nat_add_distrib)
qed

lemma contents_make_module:
  "contents (make_module s i (po, pl, co, cl)) = take cl (drop co s)"
  by (simp add: make_module_def Let_def py_slice_window)

lemma index_make_module: "index (make_module s i r) = i"
  by (cases r) (simp add: make_module_def Let_def)

lemma extract_modules_eq:
  assumes "infer_chunk_size (modules_ptr_length ft) = Some w"
  shows "extract_modules s ft =
     (if \<forall>i<modules_ptr_length ft div w.
           read_record s (metadata_start_of s ft + int i * int w) \<noteq> Inl StructError
      then Inr (map (\<lambda>i. make_module s i
                  (projr (read_record s (metadata_start_of s ft + int i * int w))))
                [0..<modules_ptr_length ft div w])
      else Inl StructError)"
  using assms by (simp add: extract_modules_def Let_def modules_loop_eq)

text \<open>
  C1. When a record width \<open>w\<close> is inferred and every record read lies inside the
  section, decoding returns exactly \<open>modules_ptr_length div w\<close> modules; module \<open>i\<close>
  carries index \<open>i\<close> and its contents are the bytes of the section from
  \<open>contents_off\<close>, \<open>contents_len\<close> of them, where the two fields are read
  little-endian at sub-offsets 8 and 12 of the record at
  \<open>metadata_start + i * w\<close>, with \<open>metadata_start = (size - (offset_byte_count + 48))
  + modules_ptr_offset\<close>. Bytes of the record beyond the first 16 play no part.
\<close>

theorem extract_modules_contents:
  assumes w: "infer_chunk_size (modules_ptr_length ft) = Some w"
    and b: "\<forall>i<modules_ptr_length ft div w.
        0 \<le> metadata_start_of section ft + int i * int w \<and>
        metadata_start_of section ft + int i * int w + 16 \<le> int (length section)"
  shows "metadata_start_of section ft =
           int (length section) - (int (offset_byte_count ft) + 48)
             + int (modules_ptr_offset ft) \<and>
    (\<exists>ms. extract_modules section ft = Inr ms \<and>
       length ms = modules_ptr_length ft div w \<and>
       (\<forall>i<length ms. index (ms ! i) = i \<and>
          contents (ms ! i) =
            take (le32_at section (nat (metadata_start_of section ft + int i * int w) + 12))
              (drop (le32_at section (nat (metadata_start_of section ft + int i * int w) + 8))
                 section)))"
proof
  show "metadata_start_of section ft =
           int (length section) - (int (offset_byte_count ft) + 48)
             + int (modules_ptr_offset ft)"
    by (simp add: metadata_start_of_def)
next
  let ?n = "modules_ptr_length ft div w"
  let ?off = "\<lambda>i. metadata_start_of section ft + int i * int w"
  have rd: "read_record section (?off i) =
      Inr (le32_at section (nat (?off i)), le32_at section (nat (?off i) + 4),
           le32_at section (nat (?off i) + 8), le32_at section (nat (?off i) + 12))"
    if "i < ?n" for i
    using b that by (intro read_record_in_bounds) auto
  then have ok: "\<forall>i<?n. read_record section (?off i) \<noteq> Inl StructError"
    by simp
  let ?ms = "map (\<lambda>i. make_module section i (projr (read_record section (?off i)))) [0..<?n]"
  have e: "extract_modules section ft = Inr ?ms"
    using ok by (simp add: extract_modules_eq [OF w])
  have "index (?ms ! i) = i \<and> contents (?ms ! i) =
      take (le32_at section (nat (?off i) + 12)) (drop (le32_at section (nat (?off i) + 8)) section)"
    if "i < ?n" for i
    using that by (simp add: rd index_make_module contents_make_module)
  then have "\<forall>i<length ?ms. index (?ms ! i) = i \<and> contents (?ms ! i) =
      take (le32_at section (nat (?off i) + 12)) (drop (le32_at section (nat (?off i) + 8)) section)"
    by simp
  with e show "\<exists>ms. extract_modules section ft = Inr ms \<and>
       length ms = modules_ptr_length ft div w \<and>
       (\<forall>i<length ms. index (ms ! i) = i \<and>
          contents (ms ! i) =
            take (le32_at section (nat (?off i) + 12))
              (drop (le32_at section (nat (?off i) + 8)) section))"
    by (intro exI [of _ ?ms]) simp
qed

theorem extract_modules_contents_witness:
  "infer_chunk_size 28 = Some 28 \<and>
   (\<exists>ms. extract_modules
       [0, 0, 0, 0, 0, 0, 0, 0, 20, 0, 0, 0, 4, 0, 0, 0, 1, 2, 3, 4, 97, 98, 99, 100,
        9, 9, 9, 9]
       \<lparr>offset_byte_count = 0, entrypoint_id = 0, modules_ptr_offset = 20,
        modules_ptr_length = 28\<rparr> = Inr ms \<and>
      length ms = 1 \<and> index (ms ! 0) = 0 \<and> contents (ms ! 0) = [97, 98, 99, 100])"
proof -
  let ?s = "[0, 0, 0, 0, 0, 0, 0, 0, 20, 0, 0, 0, 4, 0, 0, 0, 1, 2, 3, 4, 97, 98, 99, 100,
        9, 9, 9, 9] :: byte list"
  let ?f = "\<lparr>offset_byte_count = 0, entrypoint_id = 0, modules_ptr_offset = 20,
        modules_ptr_length = 28\<rparr>"
  have w: "infer_chunk_size (modules_ptr_length ?f) = Some 28"
    by (simp add: infer_chunk_size_def chunk_sizes_def)
  have b: "\<forall>i<modules_ptr_length ?f div 28.
        0 \<le> metadata_start_of ?s ?f + int i * int 28 \<and>
        metadata_start_of ?s ?f + int i * int 28 + 16 \<le> int (length ?s)"
    by (simp add: metadata_start_of_def)
  from extract_modules_contents [OF w b] obtain ms where
    e: "extract_modules ?s ?f = Inr ms" and l: "length ms = 1"
    and c: "\<forall>i<length ms. index (ms ! i) = i \<and> contents (ms ! i) =
        take (le32_at ?s (nat (metadata_start_of ?s ?f + int i * int 28) + 12))
          (drop (le32_at ?s (nat (metadata_start_of ?s ?f + int i * int 28) + 8)) ?s)"
    by auto
  from c l have "index (ms ! 0) = 0 \<and> contents (ms ! 0) =
        take (le32_at ?s (nat (metadata_start_of ?s ?f + int 0 * int 28) + 12))
          (drop (le32_at ?s (nat (metadata_start_of ?s ?f + int 0 * int 28) + 8)) ?s)"
    by (metis zero_less_one)
  then have "index (ms ! 0) = 0 \<and> contents (ms ! 0) = [97, 98, 99, 100]"
    by (simp add: metadata_start_of_def le32_at_def)
  with e l w show ?thesis by auto
qed

lemma extract_modules_Inr:
  assumes "extract_modules s ft = Inr ms"
  shows "\<exists>w. infer_chunk_size (modules_ptr_length ft) = Some w \<and>
     (\<forall>i<modules_ptr_length ft div w.
        read_record s (metadata_start_of s ft + int i * int w) \<noteq> Inl StructError) \<and>
     ms = map (\<lambda>i. make_module s i
                  (projr (read_record s (metadata_start_of s ft + int i * int w))))
            [0..<modules_ptr_length ft div w]"
proof (cases "infer_chunk_size (modules_ptr_length ft)")
  case None
  with assms show ?thesis by (simp add: extract_modules_def)
next
  case (Some w)
  with assms show ?thesis
    by (simp add: extract_modules_eq [OF Some] split: if_splits)
qed

lemma extract_modules_Inl:
  assumes "extract_modules s ft = Inl e"
  shows "e = UnknownRecordWidth \<or> e = StructError"
proof (cases "infer_chunk_size (modules_ptr_length ft)")
  case None
  with assms show ?thesis by (simp add: extract_modules_def)
next
  case (Some w)
  with assms show ?thesis
    by (simp add: extract_modules_eq [OF Some] split: if_splits)
qed

lemma unpack_from_u32_fails:
  "unpack_from_u32 buf off = Inl StructError \<longleftrightarrow> \<not> field_in_range (length buf) off"
  by (auto simp: unpack_from_u32_def field_in_range_def Let_def)

lemma unpack_from_u32_cases:
  "unpack_from_u32 buf off = Inl StructError \<or> (\<exists>v. unpack_from_u32 buf off = Inr v)"
  by (simp add: unpack_from_u32_def Let_def)

lemma read_record_fails:
  "read_record s off = Inl StructError \<longleftrightarrow>
     (\<exists>k\<in>{0, 4, 8, 12}. \<not> field_in_range (length s) (off + k))"
proof -
  have a: "unpack_from_u32 s (off + k) = Inl StructError \<or>
      (\<exists>v. unpack_from_u32 s (off + k) = Inr v)" for k
    by (rule unpack_from_u32_cases)
  have "read_record s off = Inl StructError \<longleftrightarrow>
      (unpack_from_u32 s off = Inl StructError \<or> unpack_from_u32 s (off + 4) = Inl StructError \<or>
       unpack_from_u32 s (off + 8) = Inl StructError \<or>
       unpack_from_u32 s (off + 12) = Inl StructError)"
    using a [of 0] a [of 4] a [of 8] a [of 12]
    by (auto simp: read_record_def split: sum.splits)
  then show ?thesis
    using unpack_from_u32_fails [of s off] unpack_from_u32_fails [of s "off + 4"]
      unpack_from_u32_fails [of s "off + 8"] unpack_from_u32_fails [of s "off + 12"]
    by simp
qed

text \<open>
  C4, as the code has it. Take a footer of unsigned 32-bit fields for which a record
  width \<open>w\<close> is inferred. Decoding fails with \<open>struct.error\<close> exactly when one of
  the four fields of some record does not lie inside the section (a negative offset
  counts from the end, as \<open>struct.unpack_from\<close> has it), and that failure ends the whole
  call. In every other case decoding succeeds and returns one module per record,
  whatever the content ranges are: the contents of a module are the bytes of the section
  that lie in its range, \<open>min contents_len (size - contents_off)\<close> of them, none when
  \<open>contents_off\<close> is beyond the end. No content range makes decoding fail.
\<close>

theorem content_slice_is_clamped:
  assumes w: "infer_chunk_size (modules_ptr_length ft) = Some w"
    and fits: "fits_ssize section ft"
  shows
  "(extract_modules section ft = Inl StructError \<longleftrightarrow>
      (\<exists>i<modules_ptr_length ft div w. \<exists>k\<in>{0, 4, 8, 12}.
         \<not> field_in_range (length section)
             (metadata_start_of section ft + int i * int w + k))) \<and>
   (extract_modules section ft \<noteq> Inl StructError \<longrightarrow>
      (\<exists>ms. extract_modules section ft = Inr ms \<and>
         length ms = modules_ptr_length ft div w \<and>
         (\<forall>i<length ms. \<exists>po pl co cl.
            read_record section (metadata_start_of section ft + int i * int w)
              = Inr (po, pl, co, cl) \<and>
            contents (ms ! i) = take cl (drop co section) \<and>
            length (contents (ms ! i)) = min cl (length section - co))))"
proof
  let ?n = "modules_ptr_length ft div w"
  let ?off = "\<lambda>i. metadata_start_of section ft + int i * int w"
  have eq: "extract_modules section ft =
     (if \<forall>i<?n. read_record section (?off i) \<noteq> Inl StructError
      then Inr (map (\<lambda>i. make_module section i (projr (read_record section (?off i))))
                [0..<?n])
      else Inl StructError)"
    by (rule extract_modules_eq [OF w])
  show "extract_modules section ft = Inl StructError \<longleftrightarrow>
      (\<exists>i<?n. \<exists>k\<in>{0, 4, 8, 12}. \<not> field_in_range (length section) (?off i + k))"
    unfolding eq using read_record_fails [of "section"] by auto
  show "extract_modules section ft \<noteq> Inl StructError \<longrightarrow>
      (\<exists>ms. extract_modules section ft = Inr ms \<and> length ms = ?n \<and>
         (\<forall>i<length ms. \<exists>po pl co cl.
            read_record section (?off i) = Inr (po, pl, co, cl) \<and>
            contents (ms ! i) = take cl (drop co section) \<and>
            length (contents (ms ! i)) = min cl (length section - co)))"
  proof
    assume ne: "extract_modules section ft \<noteq> Inl StructError"
    let ?ms = "map (\<lambda>i. make_module section i (projr (read_record section (?off i)))) [0..<?n]"
    from ne eq have ok: "\<forall>i<?n. read_record section (?off i) \<noteq> Inl StructError"
      by (auto split: if_splits)
    with eq have e: "extract_modules section ft = Inr ?ms" by simp
    have "\<exists>po pl co cl. read_record section (?off i) = Inr (po, pl, co, cl) \<and>
            contents (?ms ! i) = take cl (drop co section) \<and>
            length (contents (?ms ! i)) = min cl (length section - co)"
      if i: "i < ?n" for i
    proof (cases "read_record section (?off i)")
      case (Inl e')
      then have "e' = StructError" by (rule read_record_error)
      with Inl ok i show ?thesis by simp
    next
      case (Inr r)
      obtain po pl co cl where r: "r = (po, pl, co, cl)" by (cases r) auto
      from i Inr r have "contents (?ms ! i) = take cl (drop co section)"
        by (simp add: contents_make_module)
      then have "contents (?ms ! i) = take cl (drop co section) \<and>
          length (contents (?ms ! i)) = min cl (length section - co)"
        by (simp add: min.commute)
      with Inr r show ?thesis by blast
    qed
    then have "\<forall>i<length ?ms. \<exists>po pl co cl.
            read_record section (?off i) = Inr (po, pl, co, cl) \<and>
            contents (?ms ! i) = take cl (drop co section) \<and>
            length (contents (?ms ! i)) = min cl (length section - co)"
      by simp
    with e show "\<exists>ms. extract_modules section ft = Inr ms \<and> length ms = ?n \<and>
         (\<forall>i<length ms. \<exists>po pl co cl.
            read_record section (?off i) = Inr (po, pl, co, cl) \<and>
            contents (ms ! i) = take cl (drop co section) \<and>
            length (contents (ms ! i)) = min cl (length section - co))"
      by (intro exI [of _ ?ms]) simp
  qed
qed

theorem content_slice_is_clamped_witness:
  "(\<exists>ms. extract_modules
       [0, 0, 0, 0, 0, 0, 0, 0, 26, 0, 0, 0, 100, 0, 0, 0, 0, 0, 0, 0, 0, 0, 0, 0, 0, 0,
        97, 98]
       \<lparr>offset_byte_count = 0, entrypoint_id = 0, modules_ptr_offset = 20,
        modules_ptr_length = 28\<rparr> = Inr ms \<and>
      length ms = 1 \<and> contents (ms ! 0) = [97, 98]) \<and>
   extract_modules [1, 2, 3]
       \<lparr>offset_byte_count = 0, entrypoint_id = 0, modules_ptr_offset = 48,
        modules_ptr_length = 28\<rparr> = Inl StructError"
proof -
  let ?s = "[0, 0, 0, 0, 0, 0, 0, 0, 26, 0, 0, 0, 100, 0, 0, 0, 0, 0, 0, 0, 0, 0, 0, 0, 0, 0,
             97, 98] :: byte list"
  let ?f = "\<lparr>offset_byte_count = 0, entrypoint_id = 0, modules_ptr_offset = 20,
             modules_ptr_length = 28\<rparr>"
  let ?t = "[1, 2, 3] :: byte list"
  let ?g = "\<lparr>offset_byte_count = 0, entrypoint_id = 0, modules_ptr_offset = 48,
             modules_ptr_length = 28\<rparr>"
  have w: "infer_chunk_size (modules_ptr_length ?f) = Some 28"
    by (simp add: infer_chunk_size_def chunk_sizes_def)
  have w': "infer_chunk_size (modules_ptr_length ?g) = Some 28"
    by (simp add: infer_chunk_size_def chunk_sizes_def)
  have fs: "fits_ssize ?s ?f" by (simp add: fits_ssize_def)
  have ft: "fits_ssize ?t ?g" by (simp add: fits_ssize_def)
  have r: "read_record ?s 0 = Inr (0, 0, 26, 100)"
    by (simp add: read_record_def unpack_from_u32_def u32_le_def)
  have m: "metadata_start_of ?s ?f = 0" by (simp add: metadata_start_of_def)
  have inr: "\<not> (\<exists>i<modules_ptr_length ?f div 28. \<exists>k\<in>{0, 4, 8, 12}.
         \<not> field_in_range (length ?s) (metadata_start_of ?s ?f + int i * int 28 + k))"
    by (simp add: m field_in_range_def)
  have out: "\<exists>i<modules_ptr_length ?g div 28. \<exists>k\<in>{0, 4, 8, 12}.
         \<not> field_in_range (length ?t) (metadata_start_of ?t ?g + int i * int 28 + k)"
    by (auto simp: metadata_start_of_def field_in_range_def)
  from content_slice_is_clamped [OF w fs] inr
  obtain ms where e: "extract_modules ?s ?f = Inr ms" and l: "length ms = 1"
    and c: "\<forall>i<length ms. \<exists>po pl co cl.
            read_record ?s (metadata_start_of ?s ?f + int i * int 28) = Inr (po, pl, co, cl) \<and>
            contents (ms ! i) = take cl (drop co ?s) \<and>
            length (contents (ms ! i)) = min cl (length ?s - co)"
    by auto
  from c l have "\<exists>po pl co cl.
            read_record ?s (metadata_start_of ?s ?f + int 0 * int 28) = Inr (po, pl, co, cl) \<and>
            contents (ms ! 0) = take cl (drop co ?s)"
    by (metis zero_less_one)
  with r m have "contents (ms ! 0) = [97, 98]" by auto
  moreover from content_slice_is_clamped [OF w' ft] out
  have "extract_modules ?t ?g = Inl StructError" by blast
  ultimately show ?thesis using e l by blast
qed

text \<open>
  C4 as stated fails: in this section of 28 bytes the record declares
  \<open>contents_off = 26\<close> and \<open>contents_len = 100\<close>, and decoding returns a module
  whose contents are the last two bytes.
\<close>

theorem content_slice_counterexample:
  "length ([0, 0, 0, 0, 0, 0, 0, 0, 26, 0, 0, 0, 100, 0, 0, 0, 0, 0, 0, 0, 0, 0, 0, 0, 0, 0,
            97, 98] :: byte list) = 28 \<and>
   read_record [0, 0, 0, 0, 0, 0, 0, 0, 26, 0, 0, 0, 100, 0, 0, 0, 0, 0, 0, 0, 0, 0, 0, 0,
                0, 0, 97, 98] 0 = Inr (0, 0, 26, 100) \<and>
   extract_modules [0, 0, 0, 0, 0, 0, 0, 0, 26, 0, 0, 0, 100, 0, 0, 0, 0, 0, 0, 0, 0, 0, 0,
                    0, 0, 0, 97, 98]
     \<lparr>offset_byte_count = 0, entrypoint_id = 0, modules_ptr_offset = 20,
      modules_ptr_length = 28\<rparr>
   = Inr [\<lparr>index = 0, path = str_of ''module_0.js'', contents = [97, 98],
            is_text = False\<rparr>]"
proof -
  let ?s = "[0, 0, 0, 0, 0, 0, 0, 0, 26, 0, 0, 0, 100, 0, 0, 0, 0, 0, 0, 0, 0, 0, 0, 0, 0, 0,
             97, 98] :: byte list"
  let ?f = "\<lparr>offset_byte_count = 0, entrypoint_id = 0, modules_ptr_offset = 20,
             modules_ptr_length = 28\<rparr>"
  have w: "infer_chunk_size (modules_ptr_length ?f) = Some 28"
    by (simp add: infer_chunk_size_def chunk_sizes_def)
  have r: "read_record ?s 0 = Inr (0, 0, 26, 100)"
    by (simp add: read_record_def unpack_from_u32_def u32_le_def)
  have m: "metadata_start_of ?s ?f = 0"
    by (simp add: metadata_start_of_def)
  have e: "extract_modules ?s ?f = Inr [make_module ?s 0 (0, 0, 26, 100)]"
    by (simp add: extract_modules_eq [OF w] m r)
  have p: "recover_path ?s 0 0 0 = str_of ''module_0.js''"
    by (simp add: recover_path_def stripped_path_def raw_path_def py_slice_def clamp_index_def
      py_rfind_def BUNFS_ROOT_def bytes_of_def str_of_def py_strip_def str_of_nat.simps)
  have c: "py_slice ?s (int 26) (int 26 + int 100) = [97, 98]"
    by (simp only: py_slice_window) simp
  have t: "\<not> is_text_of [97, 98]"
    by (simp add: is_text_of_count)
  have "make_module ?s 0 (0, 0, 26, 100) =
      \<lparr>index = 0, path = str_of ''module_0.js'', contents = [97, 98], is_text = False\<rparr>"
    using p c t by (simp add: make_module_def)
  with e r show ?thesis by simp
qed

section \<open>The placeholder path\<close>

lemma strip_first_prefix_after_prefix:
  "strip_first_prefix [str_of ''/$bunfs/root/'', str_of ''/$bunfs/root''] p = after_prefix p"
proof -
  have a: "py_slice_from p (int (length (str_of ''/$bunfs/root/''))) = drop 13 p"
    using py_slice_from_nat [of p 13] by (simp add: str_of_def)
  have b: "py_slice_from p (int (length (str_of ''/$bunfs/root''))) = drop 12 p"
    using py_slice_from_nat [of p 12] by (simp add: str_of_def)
  show ?thesis
    by (simp only: strip_first_prefix.simps a b after_prefix_def)
qed

lemma py_strip_split:
  "dropWhile (\<lambda>c. c \<in> set cs) s =
     py_strip s cs @ rev (takeWhile (\<lambda>c. c \<in> set cs) (rev (dropWhile (\<lambda>c. c \<in> set cs) s)))"
proof -
  let ?P = "\<lambda>c. c \<in> set cs"
  let ?m = "dropWhile ?P s"
  have "?m = rev (takeWhile ?P (rev ?m) @ dropWhile ?P (rev ?m))"
    by (simp only: takeWhile_dropWhile_id rev_rev_ident)
  also have "\<dots> = rev (dropWhile ?P (rev ?m)) @ rev (takeWhile ?P (rev ?m))"
    by (simp only: rev_append)
  finally show ?thesis by (simp only: py_strip_def)
qed

lemma py_strip_decomp:
  "\<exists>l r. s = l @ py_strip s cs @ r \<and> set l \<subseteq> set cs \<and> set r \<subseteq> set cs"
proof -
  let ?P = "\<lambda>c. c \<in> set cs"
  let ?m = "dropWhile ?P s"
  let ?l = "takeWhile ?P s"
  let ?r = "rev (takeWhile ?P (rev ?m))"
  have "s = ?l @ ?m" by simp
  then have "s = ?l @ py_strip s cs @ ?r"
    using py_strip_split [of cs s] by simp
  moreover have "set ?l \<subseteq> set cs"
    using set_takeWhileD by fastforce
  moreover have "set ?r \<subseteq> set cs"
    using set_takeWhileD by fastforce
  ultimately show ?thesis by blast
qed

lemma py_strip_empty: "py_strip s cs = [] \<longleftrightarrow> set s \<subseteq> set cs"
proof
  assume e: "py_strip s cs = []"
  from py_strip_decomp [of s cs] obtain l r where
    "s = l @ py_strip s cs @ r" "set l \<subseteq> set cs" "set r \<subseteq> set cs" by blast
  with e have "s = l @ r" "set l \<subseteq> set cs" "set r \<subseteq> set cs" by simp_all
  then show "set s \<subseteq> set cs" by auto
next
  assume "set s \<subseteq> set cs"
  then have "\<forall>c\<in>set s. c \<in> set cs" by blast
  then have d: "dropWhile (\<lambda>c. c \<in> set cs) s = []"
    by (metis dropWhile_eq_Nil_conv)
  show "py_strip s cs = []"
    unfolding py_strip_def d by simp
qed

lemma py_strip_ends:
  assumes "py_strip s cs \<noteq> []"
  shows "hd (py_strip s cs) \<notin> set cs" and "last (py_strip s cs) \<notin> set cs"
proof -
  let ?P = "\<lambda>c. c \<in> set cs"
  let ?m = "dropWhile ?P s"
  let ?d = "dropWhile ?P (rev ?m)"
  from assms have d: "?d \<noteq> []" by (simp add: py_strip_def)
  then have "\<not> ?P (hd ?d)" by (rule hd_dropWhile)
  moreover from d have "last (py_strip s cs) = hd ?d"
    by (simp add: py_strip_def last_rev)
  ultimately show "last (py_strip s cs) \<notin> set cs" by simp
  have mne: "?m \<noteq> []"
  proof
    assume "?m = []"
    with d show False by simp
  qed
  then have nm: "\<not> ?P (hd ?m)" by (rule hd_dropWhile)
  from assms have "hd (py_strip s cs @ rev (takeWhile ?P (rev ?m))) = hd (py_strip s cs)"
    by (rule hd_append2)
  then have "hd ?m = hd (py_strip s cs)"
    using py_strip_split [of cs s] by simp
  with nm show "hd (py_strip s cs) \<notin> set cs" by simp
qed

lemma str_of_nat_digits:
  "str_of_nat n \<noteq> [] \<and> set (str_of_nat n) \<subseteq> {48..57} \<and> decimal_value (str_of_nat n) = n"
proof (induction n rule: str_of_nat.induct)
  case (1 n)
  show ?case
  proof (cases "n < 10")
    case True
    then show ?thesis
      by (simp add: str_of_nat.simps [of n] decimal_value_def)
  next
    case False
    with 1 have ih: "str_of_nat (n div 10) \<noteq> []"
        "set (str_of_nat (n div 10)) \<subseteq> {48..57}"
        "decimal_value (str_of_nat (n div 10)) = n div 10"
      by simp_all
    have s: "str_of_nat n = str_of_nat (n div 10) @ [48 + n mod 10]"
      using False by (simp add: str_of_nat.simps [of n])
    have "decimal_value (str_of_nat n) = 10 * decimal_value (str_of_nat (n div 10)) + n mod 10"
      unfolding s by (simp add: decimal_value_def)
    with ih(3) have "decimal_value (str_of_nat n) = n" by simp
    moreover have "set (str_of_nat n) \<subseteq> {48..57}"
      unfolding s using ih(2) by auto
    ultimately show ?thesis using s by simp
  qed
qed

lemma placeholder_inj: "placeholder i = placeholder j \<Longrightarrow> i = j"
proof -
  assume "placeholder i = placeholder j"
  then have "str_of_nat i = str_of_nat j"
    by (simp add: placeholder_def)
  then have "decimal_value (str_of_nat i) = decimal_value (str_of_nat j)" by simp
  then show "i = j" by (simp add: str_of_nat_digits)
qed

lemma path_make_module: "path (make_module s i (po, pl, co, cl)) = recover_path s i po pl"
  by (simp add: make_module_def Let_def)

lemma recover_path_nonempty: "recover_path s i po pl \<noteq> []"
  by (simp add: recover_path_def Let_def str_of_def)

lemma path_make_module_nonempty: "path (make_module s i r) \<noteq> []"
proof -
  obtain po pl co cl where "r = (po, pl, co, cl)" by (cases r) auto
  then show ?thesis by (simp only: path_make_module recover_path_nonempty not_False_eq_True)
qed

lemma stripped_path_eq:
  "stripped_path section po pl = py_strip (after_prefix (raw_path section po pl)) [47, 10, 9, 0]"
  by (simp only: stripped_path_def strip_first_prefix_after_prefix)

lemma strip_chars_list: "set [47, 10, 9, 0] = strip_chars"
  by (simp add: strip_chars_def)

lemma zero_record:
  "read_record [0, 0, 0, 0, 0, 0, 0, 0, 0, 0, 0, 0, 0, 0, 0, 0, 0, 0, 0, 0, 0, 0, 0, 0, 0, 0,
                0, 0] 0 = Inr (0, 0, 0, 0)"
  by (simp add: read_record_def unpack_from_u32_def u32_le_def)

lemma zero_raw_path:
  "raw_path [0, 0, 0, 0, 0, 0, 0, 0, 0, 0, 0, 0, 0, 0, 0, 0, 0, 0, 0, 0, 0, 0, 0, 0, 0, 0,
             0, 0] 0 0 = []"
  by (simp add: raw_path_def py_slice_def clamp_index_def py_rfind_def BUNFS_ROOT_def
      bytes_of_def)

lemma rooted_raw_path:
  "raw_path (bytes_of ''/$bunfs/root//a.js/'' @ [0, 47]) 0 19 = str_of ''/$bunfs/root//a.js/''"
  by (simp add: raw_path_def py_slice_def clamp_index_def py_rfind_def py_find_def
      BUNFS_ROOT_def bytes_of_def str_of_def utf8_step_def Let_def)

text \<open>
  C6, as the code has it. Every call of path recovery gives a string, and never the
  empty one; none of its steps (slicing, \<open>rfind\<close>, \<open>find\<close>, decoding with replacement,
  \<open>startswith\<close>, \<open>strip\<close>) can raise: once a record width is inferred and the record
  reads succeed, \<open>extract_modules\<close> returns one module per record whatever the path
  bytes are, the path of module \<open>k\<close> is the recovered path of record \<open>k\<close>, and it is not
  empty. Let \<open>a\<close> be the decoded path after the root prefix is
  removed. When \<open>a\<close> consists of stripped characters only (the empty string included), the
  result is the placeholder \<open>module_<i>.js\<close>, where \<open><i>\<close> is the index in decimal, so
  that two indices never share a placeholder. Otherwise the result is \<open>a\<close> without its
  longest leading and trailing runs of stripped characters.
\<close>

theorem recover_path_placeholder:
  "recover_path section i po pl \<noteq> [] \<and>
   (set (after_prefix (raw_path section po pl)) \<subseteq> strip_chars \<longrightarrow>
      recover_path section i po pl = placeholder i) \<and>
   (\<not> set (after_prefix (raw_path section po pl)) \<subseteq> strip_chars \<longrightarrow>
      (\<exists>l r. after_prefix (raw_path section po pl) = l @ recover_path section i po pl @ r \<and>
         set l \<subseteq> strip_chars \<and> set r \<subseteq> strip_chars \<and>
         hd (recover_path section i po pl) \<notin> strip_chars \<and>
         last (recover_path section i po pl) \<notin> strip_chars)) \<and>
   (placeholder i = str_of ''module_'' @ str_of_nat i @ str_of ''.js'' \<and>
    str_of_nat i \<noteq> [] \<and> set (str_of_nat i) \<subseteq> {48..57} \<and>
    decimal_value (str_of_nat i) = i \<and>
    (\<forall>j. placeholder i = placeholder j \<longrightarrow> i = j)) \<and>
   (extract_modules section ft = Inr ms \<and> k < length ms \<longrightarrow>
      (\<exists>w po' pl' co cl.
         infer_chunk_size (modules_ptr_length ft) = Some w \<and>
         read_record section (metadata_start_of section ft + int k * int w)
           = Inr (po', pl', co, cl) \<and>
         path (ms ! k) = recover_path section k po' pl')) \<and>
   (infer_chunk_size (modules_ptr_length ft) = Some cs \<and>
    (\<forall>j<modules_ptr_length ft div cs.
       read_record section (metadata_start_of section ft + int j * int cs)
         \<noteq> Inl StructError) \<longrightarrow>
      (\<exists>ms'. extract_modules section ft = Inr ms' \<and>
         length ms' = modules_ptr_length ft div cs \<and>
         (\<forall>j<length ms'. path (ms' ! j) \<noteq> [])))"
proof (intro conjI impI)
  let ?a = "after_prefix (raw_path section po pl)"
  let ?p = "stripped_path section po pl"
  have sp: "?p = py_strip ?a [47, 10, 9, 0]" by (rule stripped_path_eq)
  have rp: "recover_path section i po pl = (if ?p = [] then placeholder i else ?p)"
    by (simp add: recover_path_def Let_def placeholder_def)
  have pne: "placeholder i \<noteq> []" by (simp add: placeholder_def str_of_def)
  show "recover_path section i po pl \<noteq> []"
    using rp pne by simp
  show "recover_path section i po pl = placeholder i" if "set ?a \<subseteq> strip_chars"
  proof -
    from that have "?p = []"
      unfolding sp using py_strip_empty [of ?a "[47, 10, 9, 0]"] strip_chars_list by simp
    with rp show ?thesis by simp
  qed
  show "\<exists>l r. ?a = l @ recover_path section i po pl @ r \<and>
         set l \<subseteq> strip_chars \<and> set r \<subseteq> strip_chars \<and>
         hd (recover_path section i po pl) \<notin> strip_chars \<and>
         last (recover_path section i po pl) \<notin> strip_chars"
    if "\<not> set ?a \<subseteq> strip_chars"
  proof -
    from that have ne: "py_strip ?a [47, 10, 9, 0] \<noteq> []"
      using py_strip_empty [of ?a "[47, 10, 9, 0]"] strip_chars_list by simp
    with rp sp have r: "recover_path section i po pl = py_strip ?a [47, 10, 9, 0]" by simp
    from py_strip_decomp [of ?a "[47, 10, 9, 0]"] obtain l r' where
      "?a = l @ py_strip ?a [47, 10, 9, 0] @ r'" "set l \<subseteq> set [47, 10, 9, 0]"
      "set r' \<subseteq> set [47, 10, 9, 0]" by blast
    moreover from py_strip_ends [OF ne]
    have "hd (py_strip ?a [47, 10, 9, 0]) \<notin> set [47, 10, 9, 0]"
      "last (py_strip ?a [47, 10, 9, 0]) \<notin> set [47, 10, 9, 0]" by simp_all
    ultimately show ?thesis
      unfolding r strip_chars_list by blast
  qed
  show "placeholder i = str_of ''module_'' @ str_of_nat i @ str_of ''.js''"
    by (rule placeholder_def)
  show "str_of_nat i \<noteq> []" "set (str_of_nat i) \<subseteq> {48..57}" "decimal_value (str_of_nat i) = i"
    using str_of_nat_digits [of i] by simp_all
  show "\<forall>j. placeholder i = placeholder j \<longrightarrow> i = j"
    using placeholder_inj by blast
  show "\<exists>w po' pl' co cl.
         infer_chunk_size (modules_ptr_length ft) = Some w \<and>
         read_record section (metadata_start_of section ft + int k * int w)
           = Inr (po', pl', co, cl) \<and>
         path (ms ! k) = recover_path section k po' pl'"
    if a: "extract_modules section ft = Inr ms \<and> k < length ms"
  proof -
    from a obtain w where w: "infer_chunk_size (modules_ptr_length ft) = Some w"
      and ok: "\<forall>i<modules_ptr_length ft div w.
        read_record section (metadata_start_of section ft + int i * int w) \<noteq> Inl StructError"
      and ms: "ms = map (\<lambda>i. make_module section i
                  (projr (read_record section (metadata_start_of section ft + int i * int w))))
            [0..<modules_ptr_length ft div w]"
      using extract_modules_Inr [of "section" ft ms] by auto
    from a ms have k: "k < modules_ptr_length ft div w" by simp
    obtain po' pl' co cl where
      r: "read_record section (metadata_start_of section ft + int k * int w)
            = Inr (po', pl', co, cl)"
    proof (cases "read_record section (metadata_start_of section ft + int k * int w)")
      case (Inl e')
      then have "e' = StructError" by (rule read_record_error)
      with Inl ok k show ?thesis by simp
    next
      case (Inr r)
      with that show ?thesis by (cases r) simp
    qed
    from ms k r have "path (ms ! k) = recover_path section k po' pl'"
      by (simp add: path_make_module)
    with w r show ?thesis by blast
  qed
  show "\<exists>ms'. extract_modules section ft = Inr ms' \<and>
         length ms' = modules_ptr_length ft div cs \<and>
         (\<forall>j<length ms'. path (ms' ! j) \<noteq> [])"
    if b: "infer_chunk_size (modules_ptr_length ft) = Some cs \<and>
      (\<forall>j<modules_ptr_length ft div cs.
         read_record section (metadata_start_of section ft + int j * int cs)
           \<noteq> Inl StructError)"
  proof -
    let ?ms = "map (\<lambda>i. make_module section i
                  (projr (read_record section (metadata_start_of section ft + int i * int cs))))
                [0..<modules_ptr_length ft div cs]"
    from b have w: "infer_chunk_size (modules_ptr_length ft) = Some cs" by simp
    from b have "extract_modules section ft = Inr ?ms"
      by (simp add: extract_modules_eq [OF w])
    moreover have "length ?ms = modules_ptr_length ft div cs" by simp
    moreover have "\<forall>j<length ?ms. path (?ms ! j) \<noteq> []"
      by (simp add: path_make_module_nonempty)
    ultimately show ?thesis by blast
  qed
qed

theorem recover_path_placeholder_witness:
  "set (after_prefix (raw_path [0, 0, 0, 0, 0, 0, 0, 0, 0, 0, 0, 0, 0, 0, 0, 0, 0, 0, 0, 0, 0,
          0, 0, 0, 0, 0, 0, 0] 0 0)) \<subseteq> strip_chars \<and>
   extract_modules [0, 0, 0, 0, 0, 0, 0, 0, 0, 0, 0, 0, 0, 0, 0, 0, 0, 0, 0, 0, 0, 0, 0, 0, 0,
       0, 0, 0]
     \<lparr>offset_byte_count = 0, entrypoint_id = 0, modules_ptr_offset = 20,
      modules_ptr_length = 28\<rparr>
     = Inr [\<lparr>index = 0, path = str_of ''module_0.js'', contents = [], is_text = False\<rparr>] \<and>
   recover_path [0, 0, 0, 0, 0, 0, 0, 0, 0, 0, 0, 0, 0, 0, 0, 0, 0, 0, 0, 0, 0, 0, 0, 0, 0,
       0, 0, 0] 0 0 0 = str_of ''module_0.js'' \<and>
   after_prefix (raw_path (bytes_of ''/$bunfs/root//a.js/'' @ [0, 47]) 0 19) = str_of ''/a.js/'' \<and>
   \<not> set (str_of ''/a.js/'') \<subseteq> strip_chars \<and>
   recover_path (bytes_of ''/$bunfs/root//a.js/'' @ [0, 47]) 5 0 19 = str_of ''a.js'' \<and>
   (\<exists>l r. str_of ''/a.js/'' = l @ str_of ''a.js'' @ r \<and> set l \<subseteq> strip_chars \<and>
      set r \<subseteq> strip_chars) \<and>
   str_of_nat 5 \<noteq> [] \<and> decimal_value (str_of_nat 5) = 5 \<and>
   (\<exists>w po' pl' co cl.
      infer_chunk_size 28 = Some w \<and>
      read_record [0, 0, 0, 0, 0, 0, 0, 0, 0, 0, 0, 0, 0, 0, 0, 0, 0, 0, 0, 0, 0, 0, 0, 0, 0,
          0, 0, 0]
        (metadata_start_of [0, 0, 0, 0, 0, 0, 0, 0, 0, 0, 0, 0, 0, 0, 0, 0, 0, 0, 0, 0, 0, 0,
            0, 0, 0, 0, 0, 0]
           \<lparr>offset_byte_count = 0, entrypoint_id = 0, modules_ptr_offset = 20,
            modules_ptr_length = 28\<rparr> + int 0 * int w) = Inr (po', pl', co, cl) \<and>
      str_of ''module_0.js'' =
        recover_path [0, 0, 0, 0, 0, 0, 0, 0, 0, 0, 0, 0, 0, 0, 0, 0, 0, 0, 0, 0, 0, 0, 0, 0,
          0, 0, 0, 0] 0 po' pl') \<and>
   (\<exists>ms'. extract_modules [0, 0, 0, 0, 0, 0, 0, 0, 0, 0, 0, 0, 0, 0, 0, 0, 0, 0, 0, 0, 0, 0,
            0, 0, 0, 0, 0, 0]
          \<lparr>offset_byte_count = 0, entrypoint_id = 0, modules_ptr_offset = 20,
           modules_ptr_length = 28\<rparr> = Inr ms' \<and>
      length ms' = 1 \<and> path (ms' ! 0) \<noteq> [])"
proof -
  let ?z = "[0, 0, 0, 0, 0, 0, 0, 0, 0, 0, 0, 0, 0, 0, 0, 0, 0, 0, 0, 0, 0, 0, 0, 0, 0, 0,
             0, 0] :: byte list"
  let ?f = "\<lparr>offset_byte_count = 0, entrypoint_id = 0, modules_ptr_offset = 20,
             modules_ptr_length = 28\<rparr>"
  let ?s = "bytes_of ''/$bunfs/root//a.js/'' @ [0, 47]"
  have w: "infer_chunk_size (modules_ptr_length ?f) = Some 28"
    by (simp add: infer_chunk_size_def chunk_sizes_def)
  have m: "metadata_start_of ?z ?f = 0"
    by (simp add: metadata_start_of_def)
  have az: "set (after_prefix (raw_path ?z 0 0)) \<subseteq> strip_chars"
    by (simp add: zero_raw_path after_prefix_def)
  have d0: "str_of_nat 0 = [48]"
    by (simp add: str_of_nat.simps)
  from recover_path_placeholder [of ?z 0 0 0 ?f "[]" 0 28] az
  have pz: "recover_path ?z 0 0 0 = str_of ''module_0.js''"
    by (simp add: d0 str_of_def)
  have c: "py_slice ?z (int 0) (int 0 + int 0) = []"
    by (simp only: py_slice_window) simp
  have t: "\<not> is_text_of []"
    by (simp add: is_text_of_count)
  have mk: "make_module ?z 0 (0, 0, 0, 0) =
      \<lparr>index = 0, path = str_of ''module_0.js'', contents = [], is_text = False\<rparr>"
    using pz c t by (simp add: make_module_def)
  have e: "extract_modules ?z ?f =
      Inr [\<lparr>index = 0, path = str_of ''module_0.js'', contents = [], is_text = False\<rparr>]"
    by (simp add: extract_modules_eq [OF w] m zero_record mk)
  have as: "after_prefix (raw_path ?s 0 19) = str_of ''/a.js/''"
    by (simp add: rooted_raw_path) (simp add: after_prefix_def str_of_def)
  have ns: "\<not> set (str_of ''/a.js/'') \<subseteq> strip_chars"
    by (simp add: str_of_def strip_chars_def)
  have rs: "recover_path ?s 5 0 19 = str_of ''a.js''"
    by (simp add: recover_path_def stripped_path_eq as)
       (simp add: str_of_def py_strip_def)
  have "\<not> set (after_prefix (raw_path ?s 0 19)) \<subseteq> strip_chars \<longrightarrow>
      (\<exists>l r. after_prefix (raw_path ?s 0 19) = l @ recover_path ?s 5 0 19 @ r \<and>
         set l \<subseteq> strip_chars \<and> set r \<subseteq> strip_chars \<and>
         hd (recover_path ?s 5 0 19) \<notin> strip_chars \<and>
         last (recover_path ?s 5 0 19) \<notin> strip_chars)"
    using recover_path_placeholder [of ?s 5 0 19 ?f "[]" 0 28] by (elim conjE)
  then have ex: "\<exists>l r. str_of ''/a.js/'' = l @ str_of ''a.js'' @ r \<and> set l \<subseteq> strip_chars \<and>
      set r \<subseteq> strip_chars"
    unfolding as rs using ns by blast
  from recover_path_placeholder [of ?z 5 0 0 ?f "[]" 0 28]
  have dg: "str_of_nat 5 \<noteq> [] \<and> decimal_value (str_of_nat 5) = 5" by blast
  let ?m = "\<lparr>index = 0, path = str_of ''module_0.js'', contents = [], is_text = False\<rparr>"
  have "extract_modules ?z ?f = Inr [?m] \<and> 0 < length [?m] \<longrightarrow>
      (\<exists>w po' pl' co cl.
         infer_chunk_size (modules_ptr_length ?f) = Some w \<and>
         read_record ?z (metadata_start_of ?z ?f + int 0 * int w) = Inr (po', pl', co, cl) \<and>
         path ([?m] ! 0) = recover_path ?z 0 po' pl')"
    using recover_path_placeholder [of ?z 0 0 0 ?f "[?m]" 0 28] by (elim conjE)
  with e have lk: "\<exists>w po' pl' co cl.
      infer_chunk_size 28 = Some w \<and>
      read_record ?z (metadata_start_of ?z ?f + int 0 * int w) = Inr (po', pl', co, cl) \<and>
      str_of ''module_0.js'' = recover_path ?z 0 po' pl'"
    by simp
  have rd: "\<forall>j<modules_ptr_length ?f div 28.
      read_record ?z (metadata_start_of ?z ?f + int j * int 28) \<noteq> Inl StructError"
    by (simp add: m zero_record)
  have "infer_chunk_size (modules_ptr_length ?f) = Some 28 \<and>
      (\<forall>j<modules_ptr_length ?f div 28.
         read_record ?z (metadata_start_of ?z ?f + int j * int 28) \<noteq> Inl StructError) \<longrightarrow>
      (\<exists>ms'. extract_modules ?z ?f = Inr ms' \<and> length ms' = modules_ptr_length ?f div 28 \<and>
         (\<forall>j<length ms'. path (ms' ! j) \<noteq> []))"
    using recover_path_placeholder [of ?z 0 0 0 ?f "[?m]" 0 28] by (elim conjE)
  with w rd obtain ms' where "extract_modules ?z ?f = Inr ms'"
      "length ms' = modules_ptr_length ?f div 28" "\<forall>j<length ms'. path (ms' ! j) \<noteq> []"
    by blast
  then have tot: "\<exists>ms'. extract_modules ?z ?f = Inr ms' \<and> length ms' = 1 \<and>
      path (ms' ! 0) \<noteq> []"
    by auto
  from az e pz as ns rs ex dg lk tot show ?thesis by blast
qed

text \<open>
  C6 as stated fails: a section of 28 null bytes decodes to one module, whose record
  is \<open>(0, 0, 0, 0)\<close>; its path is empty after stripping and the module is named
  \<open>module_0.js\<close>, not \<open>module_0\<close>.
\<close>

theorem recover_path_placeholder_counterexample:
  "read_record [0, 0, 0, 0, 0, 0, 0, 0, 0, 0, 0, 0, 0, 0, 0, 0, 0, 0, 0, 0, 0, 0, 0, 0, 0, 0,
                0, 0] 0 = Inr (0, 0, 0, 0) \<and>
   extract_modules [0, 0, 0, 0, 0, 0, 0, 0, 0, 0, 0, 0, 0, 0, 0, 0, 0, 0, 0, 0, 0, 0, 0, 0, 0,
       0, 0, 0]
     \<lparr>offset_byte_count = 0, entrypoint_id = 0, modules_ptr_offset = 20,
      modules_ptr_length = 28\<rparr>
     = Inr [\<lparr>index = 0, path = str_of ''module_0.js'', contents = [], is_text = False\<rparr>] \<and>
   stripped_path [0, 0, 0, 0, 0, 0, 0, 0, 0, 0, 0, 0, 0, 0, 0, 0, 0, 0, 0, 0, 0, 0, 0, 0, 0,
       0, 0, 0] 0 0 = [] \<and>
   recover_path [0, 0, 0, 0, 0, 0, 0, 0, 0, 0, 0, 0, 0, 0, 0, 0, 0, 0, 0, 0, 0, 0, 0, 0, 0,
       0, 0, 0] 0 0 0 \<noteq> str_of ''module_0''"
proof -
  let ?z = "[0, 0, 0, 0, 0, 0, 0, 0, 0, 0, 0, 0, 0, 0, 0, 0, 0, 0, 0, 0, 0, 0, 0, 0, 0, 0,
             0, 0] :: byte list"
  let ?f = "\<lparr>offset_byte_count = 0, entrypoint_id = 0, modules_ptr_offset = 20,
             modules_ptr_length = 28\<rparr>"
  have w: "infer_chunk_size (modules_ptr_length ?f) = Some 28"
    by (simp add: infer_chunk_size_def chunk_sizes_def)
  have m: "metadata_start_of ?z ?f = 0"
    by (simp add: metadata_start_of_def)
  have sp: "stripped_path ?z 0 0 = []"
    by (simp add: stripped_path_eq zero_raw_path after_prefix_def py_strip_def)
  have d0: "str_of_nat 0 = [48]"
    by (simp add: str_of_nat.simps)
  have pz: "recover_path ?z 0 0 0 = str_of ''module_0.js''"
    by (simp add: recover_path_def sp d0 str_of_def)
  have c: "py_slice ?z (int 0) (int 0 + int 0) = []"
    by (simp only: py_slice_window) simp
  have t: "\<not> is_text_of []"
    by (simp add: is_text_of_count)
  have mk: "make_module ?z 0 (0, 0, 0, 0) =
      \<lparr>index = 0, path = str_of ''module_0.js'', contents = [], is_text = False\<rparr>"
    using pz c t by (simp add: make_module_def)
  have e: "extract_modules ?z ?f =
      Inr [\<lparr>index = 0, path = str_of ''module_0.js'', contents = [], is_text = False\<rparr>]"
    by (simp add: extract_modules_eq [OF w] m zero_record mk)
  have n: "recover_path ?z 0 0 0 \<noteq> str_of ''module_0''"
    by (simp add: pz str_of_def)
  from zero_record e sp n show ?thesis by blast
qed

section \<open>The footer\<close>

lemma length_BUN_TRAILER: "length BUN_TRAILER = 16"
  by (simp add: BUN_TRAILER_def)

lemma trailer_slice:
  "(py_slice_from r (int (length r) - int (length BUN_TRAILER)) \<noteq> BUN_TRAILER)
     = (drop (length r - 16) r \<noteq> BUN_TRAILER)"
proof (cases "16 \<le> length r")
  case True
  then have e: "int (length r) - int (length BUN_TRAILER) = int (length r - 16)"
    by (simp add: length_BUN_TRAILER)
  have "py_slice_from r (int (length r) - int (length BUN_TRAILER)) = drop (length r - 16) r"
    unfolding e by (rule py_slice_from_nat)
  then show ?thesis by (simp only:)
next
  case False
  have le: "length (py_slice_from r (int (length r) - int (length BUN_TRAILER))) \<le> length r"
    by (simp add: py_slice_from_def)
  have a: "py_slice_from r (int (length r) - int (length BUN_TRAILER)) \<noteq> BUN_TRAILER"
  proof
    assume "py_slice_from r (int (length r) - int (length BUN_TRAILER)) = BUN_TRAILER"
    then have "length (py_slice_from r (int (length r) - int (length BUN_TRAILER))) = 16"
      by (simp only: length_BUN_TRAILER)
    with le False show False by linarith
  qed
  have "drop (length r - 16) r \<noteq> BUN_TRAILER"
  proof
    assume "drop (length r - 16) r = BUN_TRAILER"
    then have "length (drop (length r - 16) r) = 16"
      by (simp only: length_BUN_TRAILER)
    with False show False by simp
  qed
  with a show ?thesis by simp
qed

lemma u32_from_end_in_bounds:
  assumes "48 \<le> length r" and "k \<le> 48" and "4 \<le> k"
  shows "u32_from_end r (- int k) = Inr (le32_at r (length r - k))"
proof -
  have "u32_from_end r (- int k) = unpack_from_u32 r (int (length r - k))"
    using assms by (simp add: u32_from_end_def of_nat_diff)
  moreover have "unpack_from_u32 r (int (length r - k))
      = Inr (le32_at r (nat (int (length r - k))))"
    using assms by (intro unpack_from_u32_in_bounds) auto
  ultimately show ?thesis by simp
qed

lemma parse_footer_long:
  assumes "48 \<le> length r"
  shows "parse_footer r =
     (if drop (length r - 16) r \<noteq> BUN_TRAILER then Inl TrailerMismatch
      else Inr \<lparr>offset_byte_count = le32_at r (length r - 48),
                entrypoint_id = le32_at r (length r - 44),
                modules_ptr_offset = le32_at r (length r - 40),
                modules_ptr_length = le32_at r (length r - 36)\<rparr>)"
proof -
  have "u32_from_end r (- 48) = Inr (le32_at r (length r - 48))"
    using u32_from_end_in_bounds [OF assms, of 48] by simp
  moreover have "u32_from_end r (- 44) = Inr (le32_at r (length r - 44))"
    using u32_from_end_in_bounds [OF assms, of 44] by simp
  moreover have "u32_from_end r (- 40) = Inr (le32_at r (length r - 40))"
    using u32_from_end_in_bounds [OF assms, of 40] by simp
  moreover have "u32_from_end r (- 36) = Inr (le32_at r (length r - 36))"
    using u32_from_end_in_bounds [OF assms, of 36] by simp
  ultimately show ?thesis
    using trailer_slice [of r] by (simp add: parse_footer_def Let_def)
qed

lemma u32_from_end_error: "u32_from_end r off = Inl e \<Longrightarrow> e = StructError"
  by (simp add: u32_from_end_def unpack_from_u32_error)

lemma u32_from_end_not_trailer: "u32_from_end r off \<noteq> Inl TrailerMismatch"
  using u32_from_end_error [of r off TrailerMismatch] by auto

lemma parse_footer_TrailerMismatch:
  "parse_footer r = Inl TrailerMismatch \<longleftrightarrow> drop (length r - 16) r \<noteq> BUN_TRAILER"
proof (cases "drop (length r - 16) r \<noteq> BUN_TRAILER")
  case True
  then show ?thesis
    using trailer_slice [of r] by (simp add: parse_footer_def Let_def)
next
  case False
  have "parse_footer r \<noteq> Inl TrailerMismatch"
  proof (cases "u32_from_end r (- 48)")
    case (Inl e)
    with False show ?thesis
      using trailer_slice [of r] u32_from_end_not_trailer [of r "- 48"]
      by (simp add: parse_footer_def Let_def)
  next
    case a: (Inr a)
    show ?thesis
    proof (cases "u32_from_end r (- 44)")
      case (Inl e)
      with False a show ?thesis
        using trailer_slice [of r] u32_from_end_not_trailer [of r "- 44"]
        by (simp add: parse_footer_def Let_def)
    next
      case b: (Inr b)
      show ?thesis
      proof (cases "u32_from_end r (- 40)")
        case (Inl e)
        with False a b show ?thesis
          using trailer_slice [of r] u32_from_end_not_trailer [of r "- 40"]
          by (simp add: parse_footer_def Let_def)
      next
        case c: (Inr c)
        show ?thesis
        proof (cases "u32_from_end r (- 36)")
          case (Inl e)
          with False a b c show ?thesis
            using trailer_slice [of r] u32_from_end_not_trailer [of r "- 36"]
            by (simp add: parse_footer_def Let_def)
        next
          case (Inr d)
          with False a b c show ?thesis
            using trailer_slice [of r] by (simp add: parse_footer_def Let_def)
        qed
      qed
    qed
  qed
  with False show ?thesis by simp
qed

lemma le32_at_drop:
  assumes "n + j + 4 \<le> length r"
  shows "le32_at (drop n r) j = le32_at r (n + j)"
proof -
  have "drop n r ! j = r ! (n + j)" "drop n r ! (j + 1) = r ! (n + j + 1)"
       "drop n r ! (j + 2) = r ! (n + j + 2)" "drop n r ! (j + 3) = r ! (n + j + 3)"
    using assms by (simp_all only: nth_drop add.assoc)
  then show ?thesis
    by (simp only: le32_at_def)
qed

lemma parse_footer_tail:
  assumes "48 \<le> length r"
  shows "parse_footer r = parse_footer (drop (length r - 48) r)"
proof -
  let ?t = "drop (length r - 48) r"
  have l: "length ?t = 48" using assms by simp
  have d: "drop 32 ?t = drop (length r - 16) r"
    using assms by (simp only: drop_drop) (simp add: add.commute)
  have e: "length r - 48 + 0 = length r - 48" "length r - 48 + 4 = length r - 44"
      "length r - 48 + 8 = length r - 40" "length r - 48 + 12 = length r - 36"
    using assms by linarith+
  have f: "le32_at ?t 0 = le32_at r (length r - 48)" "le32_at ?t 4 = le32_at r (length r - 44)"
      "le32_at ?t 8 = le32_at r (length r - 40)" "le32_at ?t 12 = le32_at r (length r - 36)"
    using assms le32_at_drop [of "length r - 48" 0 r] le32_at_drop [of "length r - 48" 4 r]
      le32_at_drop [of "length r - 48" 8 r] le32_at_drop [of "length r - 48" 12 r]
    by (simp_all only: e)
  have n: "(48::nat) - 16 = 32" "(48::nat) - 48 = 0" "(48::nat) - 44 = 4"
      "(48::nat) - 40 = 8" "(48::nat) - 36 = 12"
    by simp_all
  have "48 \<le> length ?t" by (simp only: l order_refl)
  then have "parse_footer ?t =
     (if drop (length ?t - 16) ?t \<noteq> BUN_TRAILER then Inl TrailerMismatch
      else Inr \<lparr>offset_byte_count = le32_at ?t (length ?t - 48),
                entrypoint_id = le32_at ?t (length ?t - 44),
                modules_ptr_offset = le32_at ?t (length ?t - 40),
                modules_ptr_length = le32_at ?t (length ?t - 36)\<rparr>)"
    by (rule parse_footer_long)
  then have "parse_footer ?t =
     (if drop (length r - 16) r \<noteq> BUN_TRAILER then Inl TrailerMismatch
      else Inr \<lparr>offset_byte_count = le32_at r (length r - 48),
                entrypoint_id = le32_at r (length r - 44),
                modules_ptr_offset = le32_at r (length r - 40),
                modules_ptr_length = le32_at r (length r - 36)\<rparr>)"
    by (simp only: l n d f)
  then show ?thesis
    by (simp only: parse_footer_long [OF assms])
qed

text \<open>
  C2, as the code has it. Parsing fails with \<open>TrailerMismatch\<close> exactly when the last
  16 bytes of the section are not the trailer, before any field is read. When the
  trailer matches and the section has at least 48 bytes, the result is the four
  little-endian fields at 48, 44, 40 and 36 bytes before the end, and it depends on the
  last 48 bytes only.
\<close>

theorem parse_footer_fields:
  "(parse_footer r = Inl TrailerMismatch \<longleftrightarrow> drop (length r - 16) r \<noteq> BUN_TRAILER) \<and>
   (48 \<le> length r \<and> drop (length r - 16) r = BUN_TRAILER \<longrightarrow>
      parse_footer r =
        Inr \<lparr>offset_byte_count = le32_at r (length r - 48),
             entrypoint_id = le32_at r (length r - 44),
             modules_ptr_offset = le32_at r (length r - 40),
             modules_ptr_length = le32_at r (length r - 36)\<rparr>) \<and>
   (48 \<le> length r \<and> 48 \<le> length r' \<and>
      drop (length r - 48) r = drop (length r' - 48) r' \<longrightarrow>
      parse_footer r = parse_footer r')"
proof (intro conjI impI)
  show "parse_footer r = Inl TrailerMismatch \<longleftrightarrow> drop (length r - 16) r \<noteq> BUN_TRAILER"
    by (rule parse_footer_TrailerMismatch)
next
  assume "48 \<le> length r \<and> drop (length r - 16) r = BUN_TRAILER"
  then show "parse_footer r =
        Inr \<lparr>offset_byte_count = le32_at r (length r - 48),
             entrypoint_id = le32_at r (length r - 44),
             modules_ptr_offset = le32_at r (length r - 40),
             modules_ptr_length = le32_at r (length r - 36)\<rparr>"
    by (simp add: parse_footer_long)
next
  assume "48 \<le> length r \<and> 48 \<le> length r' \<and>
      drop (length r - 48) r = drop (length r' - 48) r'"
  then show "parse_footer r = parse_footer r'"
    using parse_footer_tail [of r] parse_footer_tail [of r'] by simp
qed

text \<open>
  C2 as stated fails on a section shorter than 48 bytes: the section that consists of
  the trailer alone matches the trailer, and parsing raises \<open>struct.error\<close> instead
  of returning the four fields.
\<close>

theorem parse_footer_short_counterexample:
  "drop (length BUN_TRAILER - 16) BUN_TRAILER = BUN_TRAILER \<and>
   parse_footer BUN_TRAILER = Inl StructError"
  by (simp add: parse_footer_def u32_from_end_def unpack_from_u32_def py_slice_from_def
      clamp_index_def BUN_TRAILER_def)

theorem parse_footer_fields_witness:
  "parse_footer [1, 2, 3] = Inl TrailerMismatch \<and>
   parse_footer ([7, 0, 0, 0, 2, 0, 0, 0, 3, 0, 0, 0, 4, 1, 0, 0] @ replicate 16 9 @ BUN_TRAILER)
     = Inr \<lparr>offset_byte_count = 7, entrypoint_id = 2, modules_ptr_offset = 3,
            modules_ptr_length = 260\<rparr> \<and>
   parse_footer ([5, 5] @ [7, 0, 0, 0, 2, 0, 0, 0, 3, 0, 0, 0, 4, 1, 0, 0] @ replicate 16 9
                  @ BUN_TRAILER)
     = parse_footer ([7, 0, 0, 0, 2, 0, 0, 0, 3, 0, 0, 0, 4, 1, 0, 0] @ replicate 16 9
                  @ BUN_TRAILER)"
proof -
  let ?r = "[7, 0, 0, 0, 2, 0, 0, 0, 3, 0, 0, 0, 4, 1, 0, 0] @ replicate 16 9 @ BUN_TRAILER"
  have a: "drop (length [1, 2, 3 :: byte] - 16) [1, 2, 3] \<noteq> BUN_TRAILER"
    by (simp add: BUN_TRAILER_def)
  have b: "48 \<le> length ?r \<and> drop (length ?r - 16) ?r = BUN_TRAILER"
    by (simp add: BUN_TRAILER_def)
  have c: "48 \<le> length ([5, 5] @ ?r) \<and> 48 \<le> length ?r \<and>
      drop (length ([5, 5] @ ?r) - 48) ([5, 5] @ ?r) = drop (length ?r - 48) ?r"
    by (simp add: BUN_TRAILER_def)
  have v: "le32_at ?r (length ?r - 48) = 7" "le32_at ?r (length ?r - 44) = 2"
      "le32_at ?r (length ?r - 40) = 3" "le32_at ?r (length ?r - 36) = 260"
    by (simp_all add: BUN_TRAILER_def le32_at_def)
  from parse_footer_fields [of "[1, 2, 3]"] a
  have "parse_footer [1, 2, 3] = Inl TrailerMismatch" by blast
  moreover from parse_footer_fields [of ?r] b
  have "parse_footer ?r =
        Inr \<lparr>offset_byte_count = le32_at ?r (length ?r - 48),
             entrypoint_id = le32_at ?r (length ?r - 44),
             modules_ptr_offset = le32_at ?r (length ?r - 40),
             modules_ptr_length = le32_at ?r (length ?r - 36)\<rparr>" by blast
  moreover from parse_footer_fields [of "[5, 5] @ ?r" ?r] c
  have "parse_footer ([5, 5] @ ?r) = parse_footer ?r" by blast
  ultimately show ?thesis by (simp only: v)
qed

section \<open>UTF-8 decoding\<close>

lemma unat_byte: "n < 256 \<Longrightarrow> unat (of_nat n :: byte) = n"
  by (simp add: unat_of_nat)

lemma byte_less: "(a :: byte) < numeral k \<longleftrightarrow> unat a < unat (numeral k :: byte)"
  by (rule word_less_nat_alt)

lemma byte_le: "(numeral k :: byte) \<le> a \<longleftrightarrow> unat (numeral k :: byte) \<le> unat a"
  by (rule word_le_nat_alt)

lemma byte_eq: "(a :: byte) = numeral k \<longleftrightarrow> unat a = unat (numeral k :: byte)"
  by (rule word_unat_eq_iff)

lemmas byte_nat = byte_less byte_le byte_eq

lemma utf8_step_1: "unat b0 < 128 \<Longrightarrow> utf8_step (b0 # rest) = (unat b0, 1)"
  by (simp add: utf8_step_def Let_def byte_nat)

lemma utf8_step_2:
  "194 \<le> unat b0 \<Longrightarrow> unat b0 < 224 \<Longrightarrow> 128 \<le> unat b1 \<Longrightarrow> unat b1 < 192 \<Longrightarrow>
   utf8_step (b0 # b1 # rest) = (unat b0 mod 32 * 64 + unat b1 mod 64, 2)"
  by (simp add: utf8_step_def Let_def is_continuation_def byte_nat)

lemma split64: "y < 64 \<Longrightarrow> (x * 64 + y) div 64 = x \<and> (x * 64 + y) mod 64 = (y::nat)"
  by simp

lemma mod_shift: "x < n \<Longrightarrow> (x + k * n) mod n = (x::nat)"
  by (simp only: mod_mult_self1 mod_less)

lemma low5: "x < 32 \<Longrightarrow> (192 + x) mod 32 = (x::nat)"
  using mod_shift [of x 32 6] by (simp add: add.commute)

lemma low6: "x < 64 \<Longrightarrow> (128 + x) mod 64 = (x::nat)"
  using mod_shift [of x 64 2] by (simp add: add.commute)

lemma low4: "x < 16 \<Longrightarrow> (224 + x) mod 16 = (x::nat)"
  using mod_shift [of x 16 14] by (simp add: add.commute)

lemma low3: "x < 8 \<Longrightarrow> (240 + x) mod 8 = (x::nat)"
  using mod_shift [of x 8 30] by (simp add: add.commute)

lemma div4096: "(c::nat) div 4096 = c div 64 div 64"
proof -
  have "c div (64 * 64) = c div 64 div 64" by (rule div_mult2_eq)
  then show ?thesis by simp
qed

lemma div262144: "(c::nat) div 262144 = c div 4096 div 64"
proof -
  have "c div (4096 * 64) = c div 4096 div 64" by (rule div_mult2_eq)
  then show ?thesis by simp
qed

lemma arith3:
  fixes x y z :: nat
  assumes "y < 64" "z < 64" and c: "c = (x * 64 + y) * 64 + z"
  shows "c div 4096 = x" "c div 64 mod 64 = y" "c mod 64 = z"
proof -
  have d: "c div 64 = x * 64 + y" and m: "c mod 64 = z"
    unfolding c using split64 [OF assms(2), of "x * 64 + y"] by blast+
  show "c mod 64 = z" by (rule m)
  show "c div 64 mod 64 = y"
    unfolding d using split64 [OF assms(1), of x] by blast
  show "c div 4096 = x"
    unfolding div4096 d using split64 [OF assms(1), of x] by blast
qed

lemma arith4:
  fixes x y z t :: nat
  assumes "y < 64" "z < 64" "t < 64" and c: "c = ((x * 64 + y) * 64 + z) * 64 + t"
  shows "c div 262144 = x" "c div 4096 mod 64 = y" "c div 64 mod 64 = z" "c mod 64 = t"
proof -
  have d: "c div 64 = (x * 64 + y) * 64 + z" and m: "c mod 64 = t"
    unfolding c using split64 [OF assms(3), of "(x * 64 + y) * 64 + z"] by blast+
  have d2: "c div 4096 = x * 64 + y"
    unfolding div4096 d using split64 [OF assms(2), of "x * 64 + y"] by blast
  show "c mod 64 = t" by (rule m)
  show "c div 64 mod 64 = z"
    unfolding d using split64 [OF assms(2), of "x * 64 + y"] by blast
  show "c div 4096 mod 64 = y"
    unfolding d2 using split64 [OF assms(1), of x] by blast
  show "c div 262144 = x"
    unfolding div262144 d2 using split64 [OF assms(1), of x] by blast
qed

lemma byte_of_unat: "(of_nat (unat (b::byte)) :: byte) = b"
  by simp

lemma utf8_step_3:
  "224 \<le> unat b0 \<Longrightarrow> unat b0 < 240 \<Longrightarrow> 128 \<le> unat b1 \<Longrightarrow> unat b1 < 192 \<Longrightarrow>
   \<not> (if unat b1 < 160 then unat b0 = 224 else unat b0 = 237) \<Longrightarrow>
   128 \<le> unat b2 \<Longrightarrow> unat b2 < 192 \<Longrightarrow>
   utf8_step (b0 # b1 # b2 # rest) =
     ((unat b0 mod 16 * 64 + unat b1 mod 64) * 64 + unat b2 mod 64, 3)"
  by (simp add: utf8_step_def Let_def is_continuation_def byte_nat split: if_splits)

lemma utf8_step_4:
  "240 \<le> unat b0 \<Longrightarrow> unat b0 < 245 \<Longrightarrow> 128 \<le> unat b1 \<Longrightarrow> unat b1 < 192 \<Longrightarrow>
   \<not> (if unat b1 < 144 then unat b0 = 240 else unat b0 = 244) \<Longrightarrow>
   128 \<le> unat b2 \<Longrightarrow> unat b2 < 192 \<Longrightarrow> 128 \<le> unat b3 \<Longrightarrow> unat b3 < 192 \<Longrightarrow>
   utf8_step (b0 # b1 # b2 # b3 # rest) =
     (((unat b0 mod 8 * 64 + unat b1 mod 64) * 64 + unat b2 mod 64) * 64 + unat b3 mod 64, 4)"
  by (simp add: utf8_step_def Let_def is_continuation_def byte_nat split: if_splits)

lemma utf8_step_inv:
  assumes "bs \<noteq> []" "utf8_step bs = (c, k)"
  shows "0 < k \<and> k \<le> length bs \<and>
    (c = REPLACEMENT \<or>
     (k = 1 \<and> unat (bs ! 0) < 128 \<and> c = unat (bs ! 0)) \<or>
     (k = 2 \<and> 194 \<le> unat (bs ! 0) \<and> unat (bs ! 0) < 224 \<and>
      128 \<le> unat (bs ! 1) \<and> unat (bs ! 1) < 192 \<and>
      c = unat (bs ! 0) mod 32 * 64 + unat (bs ! 1) mod 64) \<or>
     (k = 3 \<and> 224 \<le> unat (bs ! 0) \<and> unat (bs ! 0) < 240 \<and>
      128 \<le> unat (bs ! 1) \<and> unat (bs ! 1) < 192 \<and>
      \<not> (if unat (bs ! 1) < 160 then unat (bs ! 0) = 224 else unat (bs ! 0) = 237) \<and>
      128 \<le> unat (bs ! 2) \<and> unat (bs ! 2) < 192 \<and>
      c = (unat (bs ! 0) mod 16 * 64 + unat (bs ! 1) mod 64) * 64 + unat (bs ! 2) mod 64) \<or>
     (k = 4 \<and> 240 \<le> unat (bs ! 0) \<and> unat (bs ! 0) < 245 \<and>
      128 \<le> unat (bs ! 1) \<and> unat (bs ! 1) < 192 \<and>
      \<not> (if unat (bs ! 1) < 144 then unat (bs ! 0) = 240 else unat (bs ! 0) = 244) \<and>
      128 \<le> unat (bs ! 2) \<and> unat (bs ! 2) < 192 \<and>
      128 \<le> unat (bs ! 3) \<and> unat (bs ! 3) < 192 \<and>
      c = ((unat (bs ! 0) mod 8 * 64 + unat (bs ! 1) mod 64) * 64 + unat (bs ! 2) mod 64) * 64
            + unat (bs ! 3) mod 64))"
proof -
  from assms(1) have l: "0 < length bs" by simp
  show ?thesis
    using assms(2) l unfolding utf8_step_def Let_def is_continuation_def byte_nat
    by (auto split: if_splits simp: Suc_le_eq)
qed

lemma encode1: "c < 128 \<Longrightarrow> utf8_encode c = [of_nat c]"
  by (simp add: utf8_encode_def)

lemma encode2:
  "128 \<le> c \<Longrightarrow> c < 2048 \<Longrightarrow>
   utf8_encode c = [of_nat (192 + c div 64), of_nat (128 + c mod 64)]"
  by (simp add: utf8_encode_def)

lemma encode3:
  "2048 \<le> c \<Longrightarrow> c < 65536 \<Longrightarrow>
   utf8_encode c =
     [of_nat (224 + c div 4096), of_nat (128 + c div 64 mod 64), of_nat (128 + c mod 64)]"
  by (simp add: utf8_encode_def)

lemma encode4:
  "65536 \<le> c \<Longrightarrow>
   utf8_encode c =
     [of_nat (240 + c div 262144), of_nat (128 + c div 4096 mod 64),
      of_nat (128 + c div 64 mod 64), of_nat (128 + c mod 64)]"
  by (simp add: utf8_encode_def)

lemma dec2:
  fixes a0 a1 c :: nat
  assumes "194 \<le> a0" "a0 < 224" "128 \<le> a1" "a1 < 192"
    and c: "c = a0 mod 32 * 64 + a1 mod 64"
  shows "128 \<le> c \<and> c < 2048 \<and> 192 + c div 64 = a0 \<and> 128 + c mod 64 = a1"
proof -
  define x where "x = a0 - 192"
  define y where "y = a1 - 128"
  have a0: "a0 = 192 + x" and x: "x < 32" "2 \<le> x" using assms by (simp_all add: x_def)
  have a1: "a1 = 128 + y" and y: "y < 64" using assms by (simp_all add: y_def)
  have cx: "c = x * 64 + y"
    unfolding c a0 a1 by (simp only: low5 [OF x(1)] low6 [OF y])
  have d: "c div 64 = x" and m: "c mod 64 = y"
    unfolding cx using split64 [OF y, of x] by blast+
  have "128 \<le> c" "c < 2048" unfolding cx using x y by linarith+
  then show ?thesis unfolding d m a0 a1 by simp
qed

lemma dec3:
  fixes a0 a1 a2 c :: nat
  assumes "224 \<le> a0" "a0 < 240" "128 \<le> a1" "a1 < 192"
    and g: "\<not> (if a1 < 160 then a0 = 224 else a0 = 237)"
    and "128 \<le> a2" "a2 < 192"
    and c: "c = (a0 mod 16 * 64 + a1 mod 64) * 64 + a2 mod 64"
  shows "2048 \<le> c \<and> c < 65536 \<and> \<not> (55296 \<le> c \<and> c < 57344) \<and>
    224 + c div 4096 = a0 \<and> 128 + c div 64 mod 64 = a1 \<and> 128 + c mod 64 = a2"
proof -
  define x where "x = a0 - 224"
  define y where "y = a1 - 128"
  define z where "z = a2 - 128"
  have a0: "a0 = 224 + x" and x: "x < 16" using assms by (simp_all add: x_def)
  have a1: "a1 = 128 + y" and y: "y < 64" using assms by (simp_all add: y_def)
  have a2: "a2 = 128 + z" and z: "z < 64" using assms by (simp_all add: z_def)
  have cx: "c = (x * 64 + y) * 64 + z"
    unfolding c a0 a1 a2 by (simp only: low4 [OF x] low6 [OF y] low6 [OF z])
  note ar = arith3 [OF y z cx]
  have cl: "c = 4096 * x + 64 * y + z" unfolding cx by simp
  have g1: "x = 0 \<longrightarrow> 32 \<le> y" and g2: "x = 13 \<longrightarrow> y < 32"
    using g unfolding a0 a1 by (auto split: if_splits)
  have l: "2048 \<le> c"
  proof (cases "x = 0")
    case True
    with g1 have "32 \<le> y" by blast
    then show ?thesis unfolding cl by linarith
  next
    case False
    then have "1 \<le> x" by simp
    then show ?thesis unfolding cl by linarith
  qed
  have u: "c < 65536" unfolding cl using x y z by linarith
  have s: "\<not> (55296 \<le> c \<and> c < 57344)"
  proof (cases "x = 13")
    case True
    with g2 have "y < 32" by blast
    with True z show ?thesis unfolding cl by linarith
  next
    case False
    then consider "x < 13" | "14 \<le> x" by linarith
    then show ?thesis
    proof cases
      case 1 with y z show ?thesis unfolding cl by linarith
    next
      case 2 then show ?thesis unfolding cl by linarith
    qed
  qed
  from l u s show ?thesis unfolding ar a0 a1 a2 by simp
qed

lemma dec4:
  fixes a0 a1 a2 a3 c :: nat
  assumes "240 \<le> a0" "a0 < 245" "128 \<le> a1" "a1 < 192"
    and g: "\<not> (if a1 < 144 then a0 = 240 else a0 = 244)"
    and "128 \<le> a2" "a2 < 192" "128 \<le> a3" "a3 < 192"
    and c: "c = ((a0 mod 8 * 64 + a1 mod 64) * 64 + a2 mod 64) * 64 + a3 mod 64"
  shows "65536 \<le> c \<and> c < 1114112 \<and>
    240 + c div 262144 = a0 \<and> 128 + c div 4096 mod 64 = a1 \<and>
    128 + c div 64 mod 64 = a2 \<and> 128 + c mod 64 = a3"
proof -
  define x where "x = a0 - 240"
  define y where "y = a1 - 128"
  define z where "z = a2 - 128"
  define t where "t = a3 - 128"
  have a0: "a0 = 240 + x" and x: "x < 5" using assms by (simp_all add: x_def)
  have x8: "x < 8" using x by simp
  have a1: "a1 = 128 + y" and y: "y < 64" using assms by (simp_all add: y_def)
  have a2: "a2 = 128 + z" and z: "z < 64" using assms by (simp_all add: z_def)
  have a3: "a3 = 128 + t" and t: "t < 64" using assms by (simp_all add: t_def)
  have cx: "c = ((x * 64 + y) * 64 + z) * 64 + t"
    unfolding c a0 a1 a2 a3 by (simp only: low3 [OF x8] low6 [OF y] low6 [OF z] low6 [OF t])
  note ar = arith4 [OF y z t cx]
  have cl: "c = 262144 * x + 4096 * y + 64 * z + t" unfolding cx by simp
  have g1: "x = 0 \<longrightarrow> 16 \<le> y" and g2: "x = 4 \<longrightarrow> y < 16"
    using g unfolding a0 a1 by (auto split: if_splits)
  have l: "65536 \<le> c"
  proof (cases "x = 0")
    case True
    with g1 have "16 \<le> y" by blast
    then show ?thesis unfolding cl by linarith
  next
    case False
    then have "1 \<le> x" by simp
    then show ?thesis unfolding cl by linarith
  qed
  have u: "c < 1114112"
  proof (cases "x = 4")
    case True
    with g2 have "y < 16" by blast
    with True z t show ?thesis unfolding cl by linarith
  next
    case False
    with x have "x < 4" by simp
    with y z t show ?thesis unfolding cl by linarith
  qed
  from l u show ?thesis unfolding ar a0 a1 a2 a3 by simp
qed

lemma decomp2: "(c::nat) = c div 64 * 64 + c mod 64"
  by (simp only: div_mult_mod_eq)

lemma decomp3: "(c::nat) = (c div 4096 * 64 + c div 64 mod 64) * 64 + c mod 64"
proof -
  have "c div 4096 * 64 + c div 64 mod 64 = c div 64 div 64 * 64 + c div 64 mod 64"
    by (simp only: div4096)
  also have "\<dots> = c div 64" by (rule div_mult_mod_eq)
  finally have "(c div 4096 * 64 + c div 64 mod 64) * 64 + c mod 64 = c div 64 * 64 + c mod 64"
    by (simp only:)
  also have "\<dots> = c" by (rule div_mult_mod_eq)
  finally show ?thesis by (rule sym)
qed

lemma decomp4:
  "(c::nat) = ((c div 262144 * 64 + c div 4096 mod 64) * 64 + c div 64 mod 64) * 64 + c mod 64"
proof -
  have "c div 262144 * 64 + c div 4096 mod 64 = c div 4096 div 64 * 64 + c div 4096 mod 64"
    by (simp only: div262144)
  also have "\<dots> = c div 4096" by (rule div_mult_mod_eq)
  finally have "((c div 262144 * 64 + c div 4096 mod 64) * 64 + c div 64 mod 64) * 64 + c mod 64
      = (c div 4096 * 64 + c div 64 mod 64) * 64 + c mod 64"
    by (simp only:)
  also have "\<dots> = c" by (rule decomp3 [symmetric])
  finally show ?thesis by (rule sym)
qed

lemma utf8_step_encode1:
  assumes "c < 128"
  shows "utf8_step (utf8_encode c @ rest) = (c, 1)"
proof -
  define b0 :: byte where "b0 = of_nat c"
  have u0: "unat b0 = c" unfolding b0_def by (rule unat_byte) (use assms in linarith)
  have e: "utf8_encode c = [b0]" unfolding b0_def using assms by (rule encode1)
  have "utf8_step (b0 # rest) = (unat b0, 1)"
    by (rule utf8_step_1) (use assms u0 in simp)
  then show ?thesis unfolding e u0 by simp
qed

lemma utf8_step_encode2:
  assumes "128 \<le> c" "c < 2048"
  shows "utf8_step (utf8_encode c @ rest) = (c, 2)"
proof -
  define x where "x = c div 64"
  define y where "y = c mod 64"
  define b0 :: byte where "b0 = of_nat (192 + x)"
  define b1 :: byte where "b1 = of_nat (128 + y)"
  have cx: "c = x * 64 + y" unfolding x_def y_def by (rule decomp2)
  have y: "y < 64" unfolding y_def by simp
  have x: "x < 32" "2 \<le> x" using assms y unfolding cx by linarith+
  have u0: "unat b0 = 192 + x" unfolding b0_def by (rule unat_byte) (use x in linarith)
  have u1: "unat b1 = 128 + y" unfolding b1_def by (rule unat_byte) (use y in linarith)
  have e: "utf8_encode c = [b0, b1]"
    unfolding b0_def b1_def x_def y_def using assms by (rule encode2)
  have "utf8_step (b0 # b1 # rest) = (unat b0 mod 32 * 64 + unat b1 mod 64, 2)"
    by (rule utf8_step_2) (use x y u0 u1 in simp_all)
  also have "unat b0 mod 32 * 64 + unat b1 mod 64 = c"
    unfolding u0 u1 cx by (simp only: low5 [OF x(1)] low6 [OF y])
  finally show ?thesis unfolding e by simp
qed

lemma utf8_step_encode3:
  assumes "2048 \<le> c" "c < 65536" "\<not> (55296 \<le> c \<and> c < 57344)"
  shows "utf8_step (utf8_encode c @ rest) = (c, 3)"
proof -
  define x where "x = c div 4096"
  define y where "y = c div 64 mod 64"
  define z where "z = c mod 64"
  define b0 :: byte where "b0 = of_nat (224 + x)"
  define b1 :: byte where "b1 = of_nat (128 + y)"
  define b2 :: byte where "b2 = of_nat (128 + z)"
  have cx: "c = (x * 64 + y) * 64 + z" unfolding x_def y_def z_def by (rule decomp3)
  then have cl: "c = 4096 * x + 64 * y + z" by simp
  have y: "y < 64" unfolding y_def by simp
  have z: "z < 64" unfolding z_def by simp
  have x: "x < 16" using assms y z unfolding cl by linarith
  have g1: "y < 32 \<Longrightarrow> x \<noteq> 0" using assms(1) z unfolding cl by linarith
  have g2: "32 \<le> y \<Longrightarrow> x \<noteq> 13"
  proof
    assume "32 \<le> y" "x = 13"
    then have "55296 \<le> c" "c < 57344" unfolding cl using y z by linarith+
    with assms(3) show False by blast
  qed
  have u0: "unat b0 = 224 + x" unfolding b0_def by (rule unat_byte) (use x in linarith)
  have u1: "unat b1 = 128 + y" unfolding b1_def by (rule unat_byte) (use y in linarith)
  have u2: "unat b2 = 128 + z" unfolding b2_def by (rule unat_byte) (use z in linarith)
  have e: "utf8_encode c = [b0, b1, b2]"
    unfolding b0_def b1_def b2_def x_def y_def z_def using assms(1,2) by (rule encode3)
  have g: "\<not> (if unat b1 < 160 then unat b0 = 224 else unat b0 = 237)"
    unfolding u0 u1 using g1 g2 by auto
  have "utf8_step (b0 # b1 # b2 # rest) =
      ((unat b0 mod 16 * 64 + unat b1 mod 64) * 64 + unat b2 mod 64, 3)"
    by (rule utf8_step_3 [OF _ _ _ _ g]) (use x y z u0 u1 u2 in simp_all)
  also have "(unat b0 mod 16 * 64 + unat b1 mod 64) * 64 + unat b2 mod 64 = c"
    unfolding u0 u1 u2 cx by (simp only: low4 [OF x] low6 [OF y] low6 [OF z])
  finally show ?thesis unfolding e by simp
qed

lemma utf8_step_encode4:
  assumes "65536 \<le> c" "c < 1114112"
  shows "utf8_step (utf8_encode c @ rest) = (c, 4)"
proof -
  define x where "x = c div 262144"
  define y where "y = c div 4096 mod 64"
  define z where "z = c div 64 mod 64"
  define t where "t = c mod 64"
  define b0 :: byte where "b0 = of_nat (240 + x)"
  define b1 :: byte where "b1 = of_nat (128 + y)"
  define b2 :: byte where "b2 = of_nat (128 + z)"
  define b3 :: byte where "b3 = of_nat (128 + t)"
  have cx: "c = ((x * 64 + y) * 64 + z) * 64 + t"
    unfolding x_def y_def z_def t_def by (rule decomp4)
  then have cl: "c = 262144 * x + 4096 * y + 64 * z + t" by simp
  have y: "y < 64" unfolding y_def by simp
  have z: "z < 64" unfolding z_def by simp
  have t: "t < 64" unfolding t_def by simp
  have x: "x < 5" using assms y z t unfolding cl by linarith
  have x8: "x < 8" using x by simp
  have g1: "y < 16 \<Longrightarrow> x \<noteq> 0" using assms(1) z t unfolding cl by linarith
  have g2: "16 \<le> y \<Longrightarrow> x \<noteq> 4" using assms(2) z t unfolding cl by linarith
  have u0: "unat b0 = 240 + x" unfolding b0_def by (rule unat_byte) (use x in linarith)
  have u1: "unat b1 = 128 + y" unfolding b1_def by (rule unat_byte) (use y in linarith)
  have u2: "unat b2 = 128 + z" unfolding b2_def by (rule unat_byte) (use z in linarith)
  have u3: "unat b3 = 128 + t" unfolding b3_def by (rule unat_byte) (use t in linarith)
  have e: "utf8_encode c = [b0, b1, b2, b3]"
    unfolding b0_def b1_def b2_def b3_def x_def y_def z_def t_def using assms(1)
    by (rule encode4)
  have g: "\<not> (if unat b1 < 144 then unat b0 = 240 else unat b0 = 244)"
    unfolding u0 u1 using g1 g2 by auto
  have "utf8_step (b0 # b1 # b2 # b3 # rest) =
      (((unat b0 mod 8 * 64 + unat b1 mod 64) * 64 + unat b2 mod 64) * 64 + unat b3 mod 64, 4)"
    by (rule utf8_step_4 [OF _ _ _ _ g]) (use x y z t u0 u1 u2 u3 in simp_all)
  also have "((unat b0 mod 8 * 64 + unat b1 mod 64) * 64 + unat b2 mod 64) * 64
      + unat b3 mod 64 = c"
    unfolding u0 u1 u2 u3 cx
    by (simp only: low3 [OF x8] low6 [OF y] low6 [OF z] low6 [OF t])
  finally show ?thesis unfolding e by simp
qed

lemma utf8_step_complete:
  assumes "scalar c"
  shows "utf8_step (utf8_encode c @ rest) = (c, length (utf8_encode c))"
proof -
  consider "c < 128" | "128 \<le> c" "c < 2048" | "2048 \<le> c" "c < 65536" | "65536 \<le> c"
    by linarith
  then show ?thesis
  proof cases
    case 1
    then have "length (utf8_encode c) = 1" by (simp add: encode1)
    with utf8_step_encode1 [OF 1, of rest] show ?thesis by simp
  next
    case 2
    then have "length (utf8_encode c) = 2" by (simp add: encode2)
    with utf8_step_encode2 [OF 2, of rest] show ?thesis by simp
  next
    case 3
    from assms have n: "\<not> (55296 \<le> c \<and> c < 57344)" by (simp add: scalar_def)
    from 3 have "length (utf8_encode c) = 3" by (simp add: encode3)
    with utf8_step_encode3 [OF 3 n, of rest] show ?thesis by simp
  next
    case 4
    from assms have u: "c < 1114112" by (simp add: scalar_def)
    from 4 have "length (utf8_encode c) = 4" by (simp add: encode4)
    with utf8_step_encode4 [OF 4 u, of rest] show ?thesis by simp
  qed
qed

lemma utf8_encode_nonempty: "utf8_encode c \<noteq> []"
  by (simp add: utf8_encode_def)

lemma utf8_decode_step:
  assumes "bs \<noteq> []"
  shows "utf8_decode bs = fst (utf8_step bs) # utf8_decode (drop (snd (utf8_step bs)) bs)"
proof -
  from assms obtain b rest where "bs = b # rest" by (cases bs) auto
  then show ?thesis by (simp add: case_prod_beta)
qed

lemma utf8_decode_encode:
  assumes "scalar c"
  shows "utf8_decode (utf8_encode c @ rest) = c # utf8_decode rest"
proof -
  have "utf8_encode c @ rest \<noteq> []" by (simp add: utf8_encode_nonempty)
  from utf8_decode_step [OF this] show ?thesis
    by (simp only: utf8_step_complete [OF assms] fst_conv snd_conv drop_append
          diff_self_eq_0 drop_0 drop_all [OF order_refl] append_Nil)
qed

lemma take_nth1: "1 \<le> length bs \<Longrightarrow> take 1 bs = [bs ! 0]"
  by (cases bs) simp_all

lemma take_nth2: "2 \<le> length bs \<Longrightarrow> take 2 bs = [bs ! 0, bs ! 1]"
proof -
  assume "2 \<le> length bs"
  then obtain a b r where "bs = a # b # r"
    by (cases bs; cases "tl bs") auto
  then show ?thesis by simp
qed

lemma take_nth3: "3 \<le> length bs \<Longrightarrow> take 3 bs = [bs ! 0, bs ! 1, bs ! 2]"
proof -
  assume "3 \<le> length bs"
  then obtain a b c r where "bs = a # b # c # r"
    by (cases bs; cases "tl bs"; cases "tl (tl bs)") auto
  then show ?thesis by simp
qed

lemma take_nth4: "4 \<le> length bs \<Longrightarrow> take 4 bs = [bs ! 0, bs ! 1, bs ! 2, bs ! 3]"
proof -
  assume "4 \<le> length bs"
  then obtain a b c d r where "bs = a # b # c # d # r"
    by (cases bs; cases "tl bs"; cases "tl (tl bs)"; cases "tl (tl (tl bs))") auto
  then show ?thesis by simp
qed

lemma scalar_small: "c < 55296 \<Longrightarrow> scalar c"
  by (simp add: scalar_def)

lemma utf8_step_sound:
  assumes ne: "bs \<noteq> []" and st: "utf8_step bs = (c, k)"
  shows "0 < k \<and> k \<le> length bs \<and>
    (c = REPLACEMENT \<or> (scalar c \<and> take k bs = utf8_encode c))"
proof -
  let ?a0 = "unat (bs ! 0)" and ?a1 = "unat (bs ! 1)"
  let ?a2 = "unat (bs ! 2)" and ?a3 = "unat (bs ! 3)"
  from utf8_step_inv [OF ne st] have k: "0 < k" "k \<le> length bs" by blast+
  from utf8_step_inv [OF ne st]
  consider (r) "c = REPLACEMENT"
    | (one) "k = 1" "?a0 < 128" "c = ?a0"
    | (two) "k = 2" "194 \<le> ?a0" "?a0 < 224" "128 \<le> ?a1" "?a1 < 192"
        "c = ?a0 mod 32 * 64 + ?a1 mod 64"
    | (three) "k = 3" "224 \<le> ?a0" "?a0 < 240" "128 \<le> ?a1" "?a1 < 192"
        "\<not> (if ?a1 < 160 then ?a0 = 224 else ?a0 = 237)" "128 \<le> ?a2" "?a2 < 192"
        "c = (?a0 mod 16 * 64 + ?a1 mod 64) * 64 + ?a2 mod 64"
    | (four) "k = 4" "240 \<le> ?a0" "?a0 < 245" "128 \<le> ?a1" "?a1 < 192"
        "\<not> (if ?a1 < 144 then ?a0 = 240 else ?a0 = 244)" "128 \<le> ?a2" "?a2 < 192"
        "128 \<le> ?a3" "?a3 < 192"
        "c = ((?a0 mod 8 * 64 + ?a1 mod 64) * 64 + ?a2 mod 64) * 64 + ?a3 mod 64"
    by blast
  then have "c = REPLACEMENT \<or> (scalar c \<and> take k bs = utf8_encode c)"
  proof cases
    case r
    then show ?thesis by blast
  next
    case one
    from one(2,3) have s: "scalar c" by (simp add: scalar_def)
    from one(2,3) have "utf8_encode c = [of_nat ?a0]" by (simp only: encode1)
    then have "utf8_encode c = [bs ! 0]" by (simp only: byte_of_unat)
    moreover from k one(1) have "take k bs = [bs ! 0]" by (simp only: take_nth1)
    ultimately show ?thesis using s by simp
  next
    case two
    from dec2 [OF two(2-6)]
    have b: "128 \<le> c" "c < 2048" and e0: "192 + c div 64 = ?a0" and e1: "128 + c mod 64 = ?a1"
      by blast+
    from b have s: "scalar c" by (simp add: scalar_def)
    have "utf8_encode c = [bs ! 0, bs ! 1]"
      unfolding encode2 [OF b] e0 e1 byte_of_unat ..
    moreover from k two(1) have "take k bs = [bs ! 0, bs ! 1]" by (simp only: take_nth2)
    ultimately show ?thesis using s by simp
  next
    case three
    from dec3 [OF three(2-9)]
    have b: "2048 \<le> c" "c < 65536" and n: "\<not> (55296 \<le> c \<and> c < 57344)"
      and e0: "224 + c div 4096 = ?a0" and e1: "128 + c div 64 mod 64 = ?a1"
      and e2: "128 + c mod 64 = ?a2"
      by blast+
    from b n have s: "scalar c" by (simp add: scalar_def)
    have "utf8_encode c = [bs ! 0, bs ! 1, bs ! 2]"
      unfolding encode3 [OF b] e0 e1 e2 byte_of_unat ..
    moreover from k three(1) have "take k bs = [bs ! 0, bs ! 1, bs ! 2]"
      by (simp only: take_nth3)
    ultimately show ?thesis using s by simp
  next
    case four
    from dec4 [OF four(2-11)]
    have b: "65536 \<le> c" "c < 1114112"
      and e0: "240 + c div 262144 = ?a0" and e1: "128 + c div 4096 mod 64 = ?a1"
      and e2: "128 + c div 64 mod 64 = ?a2" and e3: "128 + c mod 64 = ?a3"
      by blast+
    from b have s: "scalar c" by (simp add: scalar_def)
    have "utf8_encode c = [bs ! 0, bs ! 1, bs ! 2, bs ! 3]"
      unfolding encode4 [OF b(1)] e0 e1 e2 e3 byte_of_unat ..
    moreover from k four(1) have "take k bs = [bs ! 0, bs ! 1, bs ! 2, bs ! 3]"
      by (simp only: take_nth4)
    ultimately show ?thesis using s by simp
  qed
  with k show ?thesis by blast
qed

lemma utf8_decode_spec:
  assumes "bs \<noteq> []"
  shows "\<exists>c k. 0 < k \<and> k \<le> length bs \<and> utf8_decode bs = c # utf8_decode (drop k bs) \<and>
     ((scalar c \<and> take k bs = utf8_encode c) \<or>
      (c = REPLACEMENT \<and> \<not> (\<exists>c'. scalar c' \<and> prefix (utf8_encode c') bs)))"
proof (cases "\<exists>c'. scalar c' \<and> prefix (utf8_encode c') bs")
  case True
  then obtain c' rest where c': "scalar c'" "bs = utf8_encode c' @ rest"
    by (auto simp: prefix_def)
  let ?k = "length (utf8_encode c')"
  have "0 < ?k" using utf8_encode_nonempty [of c'] by simp
  moreover have "?k \<le> length bs" using c'(2) by simp
  moreover have "utf8_decode bs = c' # utf8_decode (drop ?k bs)"
    unfolding c'(2) by (simp add: utf8_decode_encode [OF c'(1)])
  moreover have "take ?k bs = utf8_encode c'" unfolding c'(2) by simp
  ultimately show ?thesis using c'(1) by blast
next
  case False
  obtain c k where st: "utf8_step bs = (c, k)" by (cases "utf8_step bs") auto
  from utf8_step_sound [OF assms st]
  have k: "0 < k" "k \<le> length bs"
    and d: "c = REPLACEMENT \<or> (scalar c \<and> take k bs = utf8_encode c)" by blast+
  have "c = REPLACEMENT"
  proof (rule ccontr)
    assume "c \<noteq> REPLACEMENT"
    with d have "scalar c" "take k bs = utf8_encode c" by blast+
    then have "scalar c \<and> prefix (utf8_encode c) bs"
      using take_is_prefix [of k bs] by simp
    with False show False by blast
  qed
  moreover from utf8_decode_step [OF assms] st
  have "utf8_decode bs = c # utf8_decode (drop k bs)" by simp
  ultimately show ?thesis using k False by blast
qed

lemma utf8_decode_ascii: "\<forall>b\<in>set bs. unat b < 128 \<Longrightarrow> utf8_decode bs = map unat bs"
proof (induction bs)
  case Nil
  then show ?case by simp
next
  case (Cons b bs)
  then have "utf8_step (b # bs) = (unat b, 1)" by (simp add: utf8_step_1)
  with Cons show ?case by simp
qed

section \<open>The path cascade\<close>

lemma py_slice_nat: "py_slice s (int a) (int b) = take (b - a) (drop a s)"
proof (cases "a \<le> length s")
  case True
  show ?thesis
  proof (cases "b \<le> length s")
    case True
    with \<open>a \<le> length s\<close> show ?thesis
      by (simp add: py_slice_def clamp_index_def min_def)
  next
    case False
    with \<open>a \<le> length s\<close> show ?thesis
      by (simp add: py_slice_def clamp_index_def min_def)
  qed
next
  case False
  then show ?thesis
    by (simp add: py_slice_def clamp_index_def min_def)
qed

lemma rfind_aux_cases:
  "(rfind_aux sub xs k found = found \<and> (\<forall>j\<le>length xs. \<not> prefix sub (drop j xs))) \<or>
   (\<exists>j\<le>length xs. rfind_aux sub xs k found = int (k + j) \<and> prefix sub (drop j xs) \<and>
        (\<forall>j'. j < j' \<and> j' \<le> length xs \<longrightarrow> \<not> prefix sub (drop j' xs)))"
proof (induction xs arbitrary: k found)
  case Nil
  then show ?case by (cases "sub = []") simp_all
next
  case (Cons x xs)
  let ?f = "if prefix sub (x # xs) then int k else found"
  from Cons.IH [of "Suc k" ?f]
  consider (none) "rfind_aux sub xs (Suc k) ?f = ?f" "\<forall>j\<le>length xs. \<not> prefix sub (drop j xs)"
    | (some) j where "j \<le> length xs" "rfind_aux sub xs (Suc k) ?f = int (Suc k + j)"
        "prefix sub (drop j xs)"
        "\<forall>j'. j < j' \<and> j' \<le> length xs \<longrightarrow> \<not> prefix sub (drop j' xs)"
    by blast
  then show ?case
  proof cases
    case none
    have tl: "\<not> prefix sub (drop j' (x # xs))" if "0 < j'" "j' \<le> length (x # xs)" for j'
    proof (cases j')
      case 0
      with that show ?thesis by simp
    next
      case (Suc m)
      with that none(2) show ?thesis by simp
    qed
    show ?thesis
    proof (cases "prefix sub (x # xs)")
      case True
      with none(1) have "rfind_aux sub (x # xs) k found = int (k + 0)" by simp
      moreover from True have "prefix sub (drop 0 (x # xs))" by simp
      moreover have "\<forall>j'. 0 < j' \<and> j' \<le> length (x # xs) \<longrightarrow> \<not> prefix sub (drop j' (x # xs))"
        using tl by blast
      ultimately show ?thesis by blast
    next
      case False
      with none(1) have "rfind_aux sub (x # xs) k found = found" by simp
      moreover have "\<forall>j\<le>length (x # xs). \<not> prefix sub (drop j (x # xs))"
      proof (intro allI impI)
        fix j assume "j \<le> length (x # xs)"
        then show "\<not> prefix sub (drop j (x # xs))"
          using False tl [of j] by (cases "j = 0") simp_all
      qed
      ultimately show ?thesis by blast
    qed
  next
    case some
    have "Suc j \<le> length (x # xs)" using some(1) by simp
    moreover have "rfind_aux sub (x # xs) k found = int (k + Suc j)"
      using some(2) by simp
    moreover have "prefix sub (drop (Suc j) (x # xs))" using some(3) by simp
    moreover have "\<forall>j'. Suc j < j' \<and> j' \<le> length (x # xs)
        \<longrightarrow> \<not> prefix sub (drop j' (x # xs))"
    proof (intro allI impI)
      fix j' assume a: "Suc j < j' \<and> j' \<le> length (x # xs)"
      then obtain m where m: "j' = Suc m" by (cases j') auto
      with a some(4) show "\<not> prefix sub (drop j' (x # xs))" by simp
    qed
    ultimately show ?thesis by blast
  qed
qed

lemma occurs_iff_sublist: "(\<exists>j\<le>length xs. prefix sub (drop j xs)) \<longleftrightarrow> sublist sub xs"
proof
  assume "\<exists>j\<le>length xs. prefix sub (drop j xs)"
  then obtain j ss where "drop j xs = sub @ ss" by (auto simp: prefix_def)
  then have "xs = take j xs @ sub @ ss" by (metis append_take_drop_id)
  then show "sublist sub xs" unfolding sublist_def by blast
next
  assume "sublist sub xs"
  then obtain ps ss where xs: "xs = ps @ sub @ ss" unfolding sublist_def by blast
  then have "length ps \<le> length xs" "prefix sub (drop (length ps) xs)" by simp_all
  then show "\<exists>j\<le>length xs. prefix sub (drop j xs)" by blast
qed

lemma find_aux_null:
  "find_aux [0::byte] ys k =
     (if 0 \<in> set ys then int (k + length (takeWhile (\<lambda>b. b \<noteq> 0) ys)) else - 1)"
  by (induction ys arbitrary: k) auto

lemma BUNFS_ROOT_Cons: "BUNFS_ROOT = 47 # bytes_of ''$bunfs/root''"
  by (simp add: BUNFS_ROOT_def bytes_of_def)

lemma window_occurrence:
  assumes "j \<le> length (search_window s po pl)"
    and "prefix BUNFS_ROOT (drop j (search_window s po pl))"
  shows "prefix BUNFS_ROOT (drop (po - 50 + j) s)" and "po - 50 + j < length s"
proof -
  let ?m = "po + pl + 10 - (po - 50)"
  have "drop j (search_window s po pl) = take (?m - j) (drop (po - 50 + j) s)"
    by (simp add: search_window_def drop_take add.commute)
  with assms(2) have "prefix BUNFS_ROOT (take (?m - j) (drop (po - 50 + j) s))" by simp
  then show p: "prefix BUNFS_ROOT (drop (po - 50 + j) s)"
    using take_is_prefix prefix_order.trans by blast
  then have "drop (po - 50 + j) s \<noteq> []"
    by (auto simp: BUNFS_ROOT_Cons)
  then show "po - 50 + j < length s" by simp
qed

lemma leading_marker_not_null:
  assumes "prefix BUNFS_ROOT ys"
  shows "0 < length (takeWhile (\<lambda>b. b \<noteq> 0) ys)"
proof -
  from assms obtain zs where "ys = 47 # zs"
    by (auto simp: BUNFS_ROOT_Cons prefix_def)
  then show ?thesis by simp
qed

lemma py_find_nat: "a \<le> length s \<Longrightarrow> py_find s sub (int a) = find_aux sub (drop a s) a"
  by (simp add: py_find_def Let_def)

lemma raw_path_no_marker:
  assumes "\<not> sublist BUNFS_ROOT (search_window s po pl)"
  shows "raw_path s po pl = utf8_decode (take pl (drop po s))"
proof -
  have m: "max 0 (int po - 50) = int (po - 50)" by simp
  have c: "py_slice s (int (po - 50)) (int po + int pl + 10) = search_window s po pl"
    using py_slice_nat [of s "po - 50" "po + pl + 10"] by (simp add: search_window_def)
  from assms have "\<forall>j\<le>length (search_window s po pl).
      \<not> prefix BUNFS_ROOT (drop j (search_window s po pl))"
    using occurs_iff_sublist [of "search_window s po pl" BUNFS_ROOT] by blast
  with rfind_aux_cases [of BUNFS_ROOT "search_window s po pl" 0 "- 1"]
  have "py_rfind (search_window s po pl) BUNFS_ROOT = - 1"
    unfolding py_rfind_def by blast
  then show ?thesis
    unfolding raw_path_def m c Let_def by (simp add: py_slice_window)
qed

lemma raw_path_marker:
  assumes j: "j \<le> length (search_window s po pl)"
    and p: "prefix BUNFS_ROOT (drop j (search_window s po pl))"
    and l: "\<forall>j'. j < j' \<and> j' \<le> length (search_window s po pl) \<longrightarrow>
        \<not> prefix BUNFS_ROOT (drop j' (search_window s po pl))"
  shows "raw_path s po pl =
     (if 0 \<in> set (drop (po - 50 + j) s)
      then utf8_decode (takeWhile (\<lambda>b. b \<noteq> 0) (drop (po - 50 + j) s))
      else utf8_decode (takeWhile (\<lambda>b. b \<noteq> 0) (take (pl + 20) (drop (po - 50 + j) s))))"
proof -
  let ?w = "search_window s po pl"
  let ?a = "po - 50 + j"
  let ?rest = "drop ?a s"
  have m: "max 0 (int po - 50) = int (po - 50)" by simp
  have c: "py_slice s (int (po - 50)) (int po + int pl + 10) = ?w"
    using py_slice_nat [of s "po - 50" "po + pl + 10"] by (simp add: search_window_def)
  from rfind_aux_cases [of BUNFS_ROOT ?w 0 "- 1"] j p l
  have r: "py_rfind ?w BUNFS_ROOT = int j"
  proof -
    from rfind_aux_cases [of BUNFS_ROOT ?w 0 "- 1"]
    consider "\<forall>i\<le>length ?w. \<not> prefix BUNFS_ROOT (drop i ?w)"
      | i where "i \<le> length ?w" "rfind_aux BUNFS_ROOT ?w 0 (- 1) = int (0 + i)"
          "prefix BUNFS_ROOT (drop i ?w)"
          "\<forall>j'. i < j' \<and> j' \<le> length ?w \<longrightarrow> \<not> prefix BUNFS_ROOT (drop j' ?w)"
      by blast
    then show ?thesis
    proof cases
      case 1
      with j p show ?thesis by blast
    next
      case (2 i)
      have "i = j"
      proof (rule ccontr)
        assume "i \<noteq> j"
        then consider "i < j" | "j < i" by linarith
        then show False
        proof cases
          case 1 with 2(4) j p show False by blast
        next
          case 2 with \<open>i \<le> length ?w\<close> \<open>prefix BUNFS_ROOT (drop i ?w)\<close> l show False by blast
        qed
      qed
      with 2(2) show ?thesis by (simp add: py_rfind_def)
    qed
  qed
  have st: "int (po - 50) + int j = int ?a" by simp
  have pa: "prefix BUNFS_ROOT ?rest" and la: "?a < length s"
    using window_occurrence [OF j p] by simp_all
  have f: "py_find s [0] (int ?a) =
      (if 0 \<in> set ?rest then int (?a + length (takeWhile (\<lambda>b. b \<noteq> 0) ?rest)) else - 1)"
    unfolding py_find_nat [OF less_imp_le [OF la]] find_aux_null by simp
  show ?thesis
  proof (cases "0 \<in> set ?rest")
    case True
    let ?n = "length (takeWhile (\<lambda>b. b \<noteq> 0) ?rest)"
    from True f have ne: "py_find s [0] (int ?a) = int (?a + ?n)" by simp
    have "0 < ?a + ?n"
      using leading_marker_not_null [OF pa] by (rule trans_less_add2)
    then have pos: "0 < int (?a + ?n)"
      by (simp only: of_nat_0_less_iff)
    have "py_slice s (int ?a) (int (?a + ?n)) = take ?n ?rest"
      using py_slice_nat [of s ?a "?a + ?n"] by simp
    also have "\<dots> = takeWhile (\<lambda>b. b \<noteq> 0) ?rest"
      by (rule takeWhile_eq_take [symmetric])
    finally have sl: "py_slice s (int ?a) (int (?a + ?n)) = takeWhile (\<lambda>b. b \<noteq> 0) ?rest" .
    show ?thesis
      unfolding raw_path_def m c Let_def r st ne using pos True sl by simp
  next
    case False
    with f have ne: "py_find s [0] (int ?a) = - 1" by simp
    have "py_slice s (int ?a) (int (?a + pl + 20)) = take (pl + 20) ?rest"
      using py_slice_nat [of s ?a "?a + pl + 20"] by (simp add: add.assoc)
    moreover have "int ?a + int pl + 20 = int (?a + pl + 20)" by simp
    ultimately have sl: "py_slice s (int ?a) (int ?a + int pl + 20) = take (pl + 20) ?rest"
      by (simp only:)
    show ?thesis
      unfolding raw_path_def m c Let_def r st ne using False sl by simp
  qed
qed

lemma length_BUNFS_ROOT: "length BUNFS_ROOT = 12"
  by (simp add: BUNFS_ROOT_def bytes_of_def)

lemma BUNFS_ROOT_ascii: "\<forall>b\<in>set BUNFS_ROOT. b \<noteq> 0 \<and> unat b < 128"
  by (simp add: BUNFS_ROOT_def bytes_of_def)

lemma raw_path_long_scan:
  "raw_path (BUNFS_ROOT @ replicate n 35 @ [0]) 0 2 = str_of ''/$bunfs/root'' @ replicate n 35"
proof -
  let ?s = "BUNFS_ROOT @ replicate n 35 @ [0]"
  have w: "search_window ?s 0 2 = BUNFS_ROOT"
    by (simp add: search_window_def length_BUNFS_ROOT)
  have j: "0 \<le> length (search_window ?s 0 2)" by simp
  have p: "prefix BUNFS_ROOT (drop 0 (search_window ?s 0 2))"
    unfolding w by simp
  have l: "\<forall>j'. 0 < j' \<and> j' \<le> length (search_window ?s 0 2) \<longrightarrow>
      \<not> prefix BUNFS_ROOT (drop j' (search_window ?s 0 2))"
  proof (intro allI impI)
    fix j' assume a: "0 < j' \<and> j' \<le> length (search_window ?s 0 2)"
    show "\<not> prefix BUNFS_ROOT (drop j' (search_window ?s 0 2))"
    proof
      assume "prefix BUNFS_ROOT (drop j' (search_window ?s 0 2))"
      then have "length BUNFS_ROOT \<le> length (drop j' (search_window ?s 0 2))"
        by (rule prefix_length_le)
      with a show False unfolding w by (auto simp: length_BUNFS_ROOT)
    qed
  qed
  have z: "0 \<in> set (drop (0 - 50 + 0) ?s)" by simp
  have t1: "takeWhile (\<lambda>b. b \<noteq> 0) (replicate n 35 @ [0 :: byte]) = replicate n 35"
    by (induction n) simp_all
  have t: "takeWhile (\<lambda>b. b \<noteq> 0) (drop (0 - 50 + 0) ?s) = BUNFS_ROOT @ replicate n 35"
    using BUNFS_ROOT_ascii by (simp add: takeWhile_append2 t1)
  have "\<forall>b\<in>set (BUNFS_ROOT @ replicate n 35). unat b < 128"
    using BUNFS_ROOT_ascii by auto
  then have d: "utf8_decode (BUNFS_ROOT @ replicate n 35) = map unat (BUNFS_ROOT @ replicate n 35)"
    by (rule utf8_decode_ascii)
  have m: "map unat (BUNFS_ROOT @ replicate n 35) = str_of ''/$bunfs/root'' @ replicate n 35"
    by (simp add: BUNFS_ROOT_def bytes_of_def str_of_def)
  from raw_path_marker [OF j p l] z have "raw_path ?s 0 2 = utf8_decode (BUNFS_ROOT @ replicate n 35)"
    unfolding t by (simp only: if_True)
  with d m show ?thesis by (simp only:)
qed

lemma accented_decode:
  "utf8_decode [104, 195, 169, 255, 46, 106, 115] = [104, 233, 65533, 46, 106, 115]"
  by (simp add: utf8_step_def is_continuation_def REPLACEMENT_def)

lemma rooted_window:
  "search_window (bytes_of ''x/$bunfs/root/a.js'' @ [0, 7]) 1 4 =
     bytes_of ''x/$bunfs/root/a''"
  by (simp add: search_window_def bytes_of_def)

lemma rooted_unique:
  assumes "prefix BUNFS_ROOT (drop j (bytes_of ''x/$bunfs/root/a''))"
  shows "j = 1"
proof -
  from assms have "length BUNFS_ROOT \<le> length (drop j (bytes_of ''x/$bunfs/root/a''))"
    by (rule prefix_length_le)
  then have "j \<le> 3" by (simp add: length_BUNFS_ROOT bytes_of_def)
  then consider "j = 0" | "j = 1" | "j = 2" | "j = 3" by linarith
  then show ?thesis
  proof cases
    case 1 with assms show ?thesis by (simp add: BUNFS_ROOT_def bytes_of_def)
  next
    case 2 then show ?thesis .
  next
    case 3 with assms show ?thesis by (simp add: BUNFS_ROOT_def bytes_of_def)
  next
    case 4 with assms show ?thesis by (simp add: BUNFS_ROOT_def bytes_of_def)
  qed
qed

lemma rooted_rest:
  "utf8_decode (takeWhile (\<lambda>b. b \<noteq> 0) (drop (1 - 50 + 1) (bytes_of ''x/$bunfs/root/a.js'' @ [0, 7])))
     = str_of ''/$bunfs/root/a.js''"
proof -
  have t: "takeWhile (\<lambda>b. b \<noteq> 0) (drop (1 - 50 + 1) (bytes_of ''x/$bunfs/root/a.js'' @ [0, 7]))
      = bytes_of ''/$bunfs/root/a.js''"
    by (simp add: bytes_of_def)
  have "\<forall>b\<in>set (bytes_of ''/$bunfs/root/a.js''). unat b < 128"
    by (simp add: bytes_of_def)
  then have "utf8_decode (bytes_of ''/$bunfs/root/a.js'') = map unat (bytes_of ''/$bunfs/root/a.js'')"
    by (rule utf8_decode_ascii)
  then show ?thesis unfolding t by (simp add: bytes_of_def str_of_def)
qed

text \<open>
  C5, as the code has it. The root marker is searched in the window from
  \<open>max 0 (path_off - 50)\<close> to \<open>path_off + path_len + 10\<close>. Without an occurrence the
  path is the decoding of \<open>section[path_off : path_off + path_len]\<close>. Otherwise let \<open>j\<close> be
  the last occurrence in the window. The scan for a null byte starts at the marker and
  has no bound but the end of the section: when a null byte follows the marker anywhere
  in the section, the path is the decoding of the bytes from the marker to the first
  one. Only when none follows it is the path the decoding of the part before the first
  null byte of the \<open>path_len + 20\<close> bytes that start at the marker.

  Decoding is UTF-8 with replacement, and never fails. The encoding of a scalar value
  decodes to that value, and decoding goes on after it. On a non-empty input the decoder
  consumes at least one byte: either the bytes consumed are the encoding of the scalar
  value it gives, or no encoding of a scalar value starts the input and it gives
  \<open>U+FFFD\<close>.
\<close>

theorem raw_path_cascade:
  "(\<not> sublist BUNFS_ROOT (search_window section po pl) \<longrightarrow>
      raw_path section po pl = utf8_decode (take pl (drop po section))) \<and>
   (sublist BUNFS_ROOT (search_window section po pl) \<longrightarrow>
      (\<exists>j\<le>length (search_window section po pl).
         prefix BUNFS_ROOT (drop j (search_window section po pl)) \<and>
         (\<forall>j'. j < j' \<and> j' \<le> length (search_window section po pl) \<longrightarrow>
            \<not> prefix BUNFS_ROOT (drop j' (search_window section po pl))) \<and>
         raw_path section po pl =
           (if 0 \<in> set (drop (po - 50 + j) section)
            then utf8_decode (takeWhile (\<lambda>b. b \<noteq> 0) (drop (po - 50 + j) section))
            else utf8_decode (takeWhile (\<lambda>b. b \<noteq> 0)
                   (take (pl + 20) (drop (po - 50 + j) section)))))) \<and>
   utf8_decode [] = [] \<and>
   (scalar c \<longrightarrow> utf8_decode (utf8_encode c @ bs) = c # utf8_decode bs) \<and>
   (bs \<noteq> [] \<longrightarrow>
      (\<exists>d k. 0 < k \<and> k \<le> length bs \<and> utf8_decode bs = d # utf8_decode (drop k bs) \<and>
         ((scalar d \<and> take k bs = utf8_encode d) \<or>
          (d = REPLACEMENT \<and> \<not> (\<exists>c'. scalar c' \<and> prefix (utf8_encode c') bs)))))"
proof (intro conjI impI)
  assume "\<not> sublist BUNFS_ROOT (search_window section po pl)"
  then show "raw_path section po pl = utf8_decode (take pl (drop po section))"
    by (rule raw_path_no_marker)
next
  let ?w = "search_window section po pl"
  assume "sublist BUNFS_ROOT ?w"
  then have "\<exists>j\<le>length ?w. prefix BUNFS_ROOT (drop j ?w)"
    using occurs_iff_sublist [of ?w BUNFS_ROOT] by blast
  with rfind_aux_cases [of BUNFS_ROOT ?w 0 "- 1"]
  obtain j where j: "j \<le> length ?w" "prefix BUNFS_ROOT (drop j ?w)"
      "\<forall>j'. j < j' \<and> j' \<le> length ?w \<longrightarrow> \<not> prefix BUNFS_ROOT (drop j' ?w)"
    by blast
  from raw_path_marker [OF j] j
  show "\<exists>j\<le>length ?w.
         prefix BUNFS_ROOT (drop j ?w) \<and>
         (\<forall>j'. j < j' \<and> j' \<le> length ?w \<longrightarrow> \<not> prefix BUNFS_ROOT (drop j' ?w)) \<and>
         raw_path section po pl =
           (if 0 \<in> set (drop (po - 50 + j) section)
            then utf8_decode (takeWhile (\<lambda>b. b \<noteq> 0) (drop (po - 50 + j) section))
            else utf8_decode (takeWhile (\<lambda>b. b \<noteq> 0)
                   (take (pl + 20) (drop (po - 50 + j) section))))"
    by blast
next
  show "utf8_decode [] = []" by simp
next
  assume "scalar c"
  then show "utf8_decode (utf8_encode c @ bs) = c # utf8_decode bs"
    by (rule utf8_decode_encode)
next
  assume "bs \<noteq> []"
  then show "\<exists>d k. 0 < k \<and> k \<le> length bs \<and> utf8_decode bs = d # utf8_decode (drop k bs) \<and>
         ((scalar d \<and> take k bs = utf8_encode d) \<or>
          (d = REPLACEMENT \<and> \<not> (\<exists>c'. scalar c' \<and> prefix (utf8_encode c') bs)))"
    by (rule utf8_decode_spec)
qed

theorem raw_path_cascade_witness:
  "\<not> sublist BUNFS_ROOT (search_window [104, 195, 169, 255, 46, 106, 115] 0 7) \<and>
   raw_path [104, 195, 169, 255, 46, 106, 115] 0 7 = [104, 233, 65533, 46, 106, 115] \<and>
   sublist BUNFS_ROOT (search_window (bytes_of ''x/$bunfs/root/a.js'' @ [0, 7]) 1 4) \<and>
   raw_path (bytes_of ''x/$bunfs/root/a.js'' @ [0, 7]) 1 4 = str_of ''/$bunfs/root/a.js'' \<and>
   scalar 233 \<and> utf8_encode 233 = [195, 169] \<and>
   utf8_decode [195, 169, 255] = [233, 65533] \<and>
   utf8_decode [255] = [65533]"
proof -
  let ?h = "[104, 195, 169, 255, 46, 106, 115] :: byte list"
  let ?s = "bytes_of ''x/$bunfs/root/a.js'' @ [0, 7]"
  let ?w = "search_window ?s 1 4"
  have a: "\<not> sublist BUNFS_ROOT (search_window ?h 0 7)"
    by (simp add: search_window_def BUNFS_ROOT_def bytes_of_def sublist_Cons_right)
  have b: "sublist BUNFS_ROOT ?w"
    by (simp add: search_window_def BUNFS_ROOT_def bytes_of_def sublist_Cons_right)
  have ne: "[255 :: byte] \<noteq> []" by simp
  have sc: "scalar 233" by (simp add: scalar_def)
  have en: "utf8_encode 233 = [195, 169]" by (simp add: utf8_encode_def)
  note th = raw_path_cascade [of ?h 0 7 233 "[255]"]
  note ts = raw_path_cascade [of ?s 1 4 233 "[255]"]
  from th a have "raw_path ?h 0 7 = utf8_decode (take 7 (drop 0 ?h))" by blast
  moreover have "take 7 (drop 0 ?h) = ?h" by simp
  ultimately have rh: "raw_path ?h 0 7 = [104, 233, 65533, 46, 106, 115]"
    by (simp only: accented_decode)
  from ts b obtain j where j: "prefix BUNFS_ROOT (drop j ?w)"
    and r: "raw_path ?s 1 4 =
        (if 0 \<in> set (drop (1 - 50 + j) ?s)
         then utf8_decode (takeWhile (\<lambda>b. b \<noteq> 0) (drop (1 - 50 + j) ?s))
         else utf8_decode (takeWhile (\<lambda>b. b \<noteq> 0) (take (4 + 20) (drop (1 - 50 + j) ?s))))"
    by blast
  from j have j1: "j = 1" unfolding rooted_window by (rule rooted_unique)
  have z: "0 \<in> set (drop (1 - 50 + 1) ?s)" by (simp add: bytes_of_def)
  from r have rs: "raw_path ?s 1 4 = str_of ''/$bunfs/root/a.js''"
    unfolding j1 using z by (simp only: if_True rooted_rest)
  from th ne obtain d k where dk: "0 < k" "k \<le> length [255 :: byte]"
      "utf8_decode [255] = d # utf8_decode (drop k [255])"
      "(scalar d \<and> take k [255] = utf8_encode d) \<or>
       (d = REPLACEMENT \<and> \<not> (\<exists>c'. scalar c' \<and> prefix (utf8_encode c') [255]))"
    by blast
  from dk(1,2) have k1: "k = 1" by simp
  have "\<not> (scalar d \<and> take k [255] = utf8_encode d)"
  proof
    assume x: "scalar d \<and> take k [255] = utf8_encode d"
    then have "utf8_encode d = [255]" unfolding k1 by simp
    then show False
      by (auto simp: utf8_encode_def unat_of_nat word_unat_eq_iff split: if_splits)
  qed
  with dk(4) have "d = REPLACEMENT" by blast
  with dk(3) k1 have d1: "utf8_decode [255] = [65533]" by (simp add: REPLACEMENT_def)
  from th sc have "utf8_decode (utf8_encode 233 @ [255]) = 233 # utf8_decode [255]" by blast
  then have d2: "utf8_decode [195, 169, 255] = [233, 65533]"
    unfolding en d1 by simp
  from a rh b rs sc en d2 d1 show ?thesis by blast
qed

text \<open>
  C5 as stated fails: the null-byte scan is not bounded. In this section the marker is
  followed by 1000 bytes \<open>#\<close> and then by the first null byte; with \<open>path_len = 2\<close> the
  path is the marker and all 1000 bytes, 1012 characters, and not the decoding of the
  \<open>path_len + 20 = 22\<close> bytes from the marker, none of which is null.
\<close>

theorem raw_path_scan_counterexample:
  "raw_path (BUNFS_ROOT @ replicate 1000 35 @ [0]) 0 2 =
     str_of ''/$bunfs/root'' @ replicate 1000 35 \<and>
   length (raw_path (BUNFS_ROOT @ replicate 1000 35 @ [0]) 0 2) = 1012 \<and>
   raw_path (BUNFS_ROOT @ replicate 1000 35 @ [0]) 0 2 \<noteq>
     utf8_decode (take (2 + 20) (BUNFS_ROOT @ replicate 1000 35 @ [0]))"
proof -
  let ?s = "BUNFS_ROOT @ replicate 1000 35 @ [0]"
  have r: "raw_path ?s 0 2 = str_of ''/$bunfs/root'' @ replicate 1000 35"
    by (rule raw_path_long_scan)
  have n: "length (raw_path ?s 0 2) = 1012"
    unfolding r by (simp add: str_of_def)
  have "length (utf8_decode (take (2 + 20) ?s)) \<le> 22"
  proof -
    have a: "\<forall>b\<in>set (take (2 + 20) ?s). unat b < 128"
      using BUNFS_ROOT_ascii by (auto simp: length_BUNFS_ROOT dest: in_set_takeD)
    show ?thesis unfolding utf8_decode_ascii [OF a] by simp
  qed
  with n have "raw_path ?s 0 2 \<noteq> utf8_decode (take (2 + 20) ?s)" by auto
  with r n show ?thesis by blast
qed

end
